theory Spec2Isabelle
  imports Complex_Main
begin

section \<open>Numbers, faults and vectors\<close>

text \<open>
  The solvers compute with C++ \<open>double\<close>. The model takes the values as real numbers:
  every operation is exact, and rounding, overflow, infinities and NaN are not represented.
  A quotient of the model agrees with the program only where the divisor is not zero.
  Rounding can decide what the program does where it compares. The comparison of the
  accumulated time with the horizon is modelled a second time in binary64 arithmetic
  (section \<open>The time variable in binary64\<close>). The comparisons of \<open>init_source\<close>
  are exact here: in the program, a grid point that lies on a bound of a source region in
  exact arithmetic can miss it by one unit in the last place of \<open>i * dx\<close>.

  A \<open>std::vector<double>\<close> is a list. The grid size \<open>n_\<close> is an \<open>int\<close>; it is
  taken in the range where \<open>n_ * n_\<close> does not overflow. Loop counters and indices
  are natural numbers, since every loop of the solvers starts at 0 and runs only while the
  counter is below \<open>n_\<close>.
\<close>

datatype fault =
    LengthError   \<comment> \<open>\<open>std::vector\<close> constructed with a negative size: \<open>std::length_error\<close>\<close>
  | OutOfBounds   \<comment> \<open>an index outside its vector: undefined behaviour in C++\<close>

definition KELVIN_OFFSET :: real where
  "KELVIN_OFFSET = 273.15"

section \<open>Material (material.hpp)\<close>

text \<open>The field \<open>c\<close> of the source is \<open>c_heat\<close> here.\<close>

record Material =
  name :: string
  lambda :: real
  rho :: real
  c_heat :: real

definition alpha :: "Material \<Rightarrow> real" where
  "alpha m = lambda m / (rho m * c_heat m)"

definition COPPER :: Material where
  "COPPER = \<lparr>name = ''Cuivre'', lambda = 389, rho = 8940, c_heat = 380\<rparr>"

definition IRON :: Material where
  "IRON = \<lparr>name = ''Fer'', lambda = 80.2, rho = 7874, c_heat = 440\<rparr>"

definition GLASS :: Material where
  "GLASS = \<lparr>name = ''Verre'', lambda = 1.2, rho = 2530, c_heat = 840\<rparr>"

text \<open>The name of the fourth material has an e with grave accent, two bytes in UTF-8.\<close>

definition POLYSTYRENE :: Material where
  "POLYSTYRENE = \<lparr>name = ''Polystyr'' @ [CHR 0xC3, CHR 0xA8] @ ''ne'',
     lambda = 0.1, rho = 1040, c_heat = 1200\<rparr>"

section \<open>The 1D solver (HeatEquationSolver1D)\<close>

record HeatEquationSolver1D =
  mat_1d :: Material
  L_1d :: real
  tmax_1d :: real
  dx_1d :: real
  dt_1d :: real
  u0_kelvin_1d :: real
  t_1d :: real
  n_1d :: int
  u_1d :: "real list"
  F_1d :: "real list"

text \<open>The body of the loop of \<open>init_source\<close>, for the grid point \<open>i\<close>.\<close>

definition init_source_point_1d ::
  "HeatEquationSolver1D \<Rightarrow> real \<Rightarrow> real \<Rightarrow> real \<Rightarrow> nat \<Rightarrow> real list \<Rightarrow> real list" where
  "init_source_point_1d s f1 f2 scale i Fv =
     (let x = real i * dx_1d s in
      if x \<ge> L_1d s / 10 \<and> x \<le> 2 * L_1d s / 10 then Fv[i := f1 * scale]
      else if x \<ge> 5 * L_1d s / 10 \<and> x \<le> 6 * L_1d s / 10 then Fv[i := f2 * scale]
      else Fv[i := 0])"

definition init_source_1d :: "real \<Rightarrow> HeatEquationSolver1D \<Rightarrow> HeatEquationSolver1D" where
  "init_source_1d f s =
     (let f1 = tmax_1d s * f * f;
          f2 = 0.75 * tmax_1d s * f * f;
          scale = 100
      in s\<lparr>F_1d := fold (init_source_point_1d s f1 f2 scale) [0..<nat (n_1d s)] (F_1d s)\<rparr>)"

text \<open>
  The constructor. The members are initialised in the order of their declaration, so the
  field is filled with the stored \<open>u0_kelvin_\<close>. A negative \<open>n\<close> makes the
  constructor of \<open>u_\<close> throw.
\<close>

definition HeatEquationSolver1D_new ::
  "Material \<Rightarrow> real \<Rightarrow> real \<Rightarrow> real \<Rightarrow> real \<Rightarrow> int \<Rightarrow> fault + HeatEquationSolver1D" where
  "HeatEquationSolver1D_new m L tmax u0 f n =
     (if n < 0 then Inl LengthError
      else Inr (init_source_1d f
        \<lparr>mat_1d = m, L_1d = L, tmax_1d = tmax,
         dx_1d = L / real_of_int (n - 1),
         dt_1d = tmax / 1000,
         u0_kelvin_1d = u0 + KELVIN_OFFSET,
         t_1d = 0, n_1d = n,
         u_1d = replicate (nat n) (u0 + KELVIN_OFFSET),
         F_1d = replicate (nat n) 0\<rparr>))"

text \<open>The Thomas algorithm: one round of the forward elimination, one of the back substitution.\<close>

definition forward_elim ::
  "real list \<Rightarrow> real list \<Rightarrow> real list \<Rightarrow> real list \<Rightarrow> nat
     \<Rightarrow> real list \<times> real list \<Rightarrow> real list \<times> real list" where
  "forward_elim a b c d i = (\<lambda>(c_prime, d_prime).
     let denom = b ! i - a ! i * c_prime ! (i - 1)
     in (c_prime[i := c ! i / denom],
         d_prime[i := (d ! i - a ! i * d_prime ! (i - 1)) / denom]))"

definition back_subst :: "real list \<Rightarrow> real list \<Rightarrow> nat \<Rightarrow> real list \<Rightarrow> real list" where
  "back_subst c_prime d_prime i x = x[i := d_prime ! i - c_prime ! i * x ! (i + 1)]"

definition solve_tridiagonal ::
  "real list \<Rightarrow> real list \<Rightarrow> real list \<Rightarrow> real list \<Rightarrow> real list \<Rightarrow> fault + real list" where
  "solve_tridiagonal a b c d x =
     (let n = length b in
      if n = 0 \<or> length a < n \<or> length c < n \<or> length d < n \<or> length x < n
      then Inl OutOfBounds
      else
        let c_prime = replicate n 0;
            d_prime = replicate n 0;
            c_prime = c_prime[0 := c ! 0 / b ! 0];
            d_prime = d_prime[0 := d ! 0 / b ! 0];
            (c_prime, d_prime) = fold (forward_elim a b c d) [1..<n] (c_prime, d_prime);
            x = x[n - 1 := d_prime ! (n - 1)]
        in Inr (fold (back_subst c_prime d_prime) (rev [0..<n - 1]) x))"

text \<open>
  One time step. With a negative \<open>n_\<close> the constructor of \<open>a\<close> throws; with
  \<open>n_ = 0\<close> the write \<open>b[0] = 1.0 + r\<close> is outside the vector.
\<close>

definition step_1d :: "HeatEquationSolver1D \<Rightarrow> fault + bool \<times> HeatEquationSolver1D" where
  "step_1d s =
     (if t_1d s \<ge> tmax_1d s then Inr (False, s)
      else if n_1d s < 0 then Inl LengthError
      else if n_1d s = 0 then Inl OutOfBounds
      else
        let r = alpha (mat_1d s) * dt_1d s / (dx_1d s * dx_1d s);
            coef = dt_1d s / (rho (mat_1d s) * c_heat (mat_1d s));
            n = nat (n_1d s);
            a = replicate n (- r);
            b = replicate n (1 + 2 * r);
            c = replicate n (- r);
            d = replicate n 0;
            d = fold (\<lambda>i d. d[i := u_1d s ! i + coef * F_1d s ! i]) [0..<n] d;
            b = b[0 := 1 + r];
            c = c[0 := - r];
            b = b[n - 1 := 1];
            a = a[n - 1 := 0];
            c = c[n - 1 := 0];
            d = d[n - 1 := u0_kelvin_1d s];
            u_new = replicate n 0
        in case solve_tridiagonal a b c d u_new of
             Inl e \<Rightarrow> Inl e
           | Inr u_new \<Rightarrow> Inr (True, s\<lparr>u_1d := u_new, t_1d := t_1d s + dt_1d s\<rparr>))"

definition reset_1d :: "HeatEquationSolver1D \<Rightarrow> HeatEquationSolver1D" where
  "reset_1d s = s\<lparr>t_1d := 0, u_1d := replicate (length (u_1d s)) (u0_kelvin_1d s)\<rparr>"

text \<open>\<open>k\<close> calls of \<open>step\<close> in a row; the results of the calls are dropped.\<close>

fun steps_1d :: "nat \<Rightarrow> HeatEquationSolver1D \<Rightarrow> fault + HeatEquationSolver1D" where
  "steps_1d 0 s = Inr s"
| "steps_1d (Suc k) s =
     (case step_1d s of Inl e \<Rightarrow> Inl e | Inr (ok, s') \<Rightarrow> steps_1d k s')"

section \<open>The 2D solver (HeatEquationSolver2D)\<close>

record HeatEquationSolver2D =
  mat_2d :: Material
  L_2d :: real
  tmax_2d :: real
  dx_2d :: real
  dt_2d :: real
  u0_kelvin_2d :: real
  t_2d :: real
  n_2d :: int
  u_2d :: "real list"
  F_2d :: "real list"

definition idx :: "HeatEquationSolver2D \<Rightarrow> nat \<Rightarrow> nat \<Rightarrow> nat" where
  "idx s i j = j * nat (n_2d s) + i"

definition in_source_2d :: "real \<Rightarrow> real \<Rightarrow> real \<Rightarrow> bool" where
  "in_source_2d L x y =
     (let in_source = False;
          in_source = (if x \<ge> L / 6 \<and> x \<le> 2 * L / 6 \<and> y \<ge> L / 6 \<and> y \<le> 2 * L / 6
                       then True else in_source);
          in_source = (if x \<ge> 4 * L / 6 \<and> x \<le> 5 * L / 6 \<and> y \<ge> L / 6 \<and> y \<le> 2 * L / 6
                       then True else in_source);
          in_source = (if x \<ge> L / 6 \<and> x \<le> 2 * L / 6 \<and> y \<ge> 4 * L / 6 \<and> y \<le> 5 * L / 6
                       then True else in_source);
          in_source = (if x \<ge> 4 * L / 6 \<and> x \<le> 5 * L / 6 \<and> y \<ge> 4 * L / 6 \<and> y \<le> 5 * L / 6
                       then True else in_source)
      in in_source)"

definition init_source_point_2d ::
  "HeatEquationSolver2D \<Rightarrow> real \<Rightarrow> real \<Rightarrow> nat \<Rightarrow> nat \<Rightarrow> real list \<Rightarrow> real list" where
  "init_source_point_2d s f_val scale j i Fv =
     (let x = real i * dx_2d s;
          y = real j * dx_2d s
      in Fv[idx s i j := (if in_source_2d (L_2d s) x y then f_val * scale else 0)])"

definition init_source_2d :: "real \<Rightarrow> HeatEquationSolver2D \<Rightarrow> HeatEquationSolver2D" where
  "init_source_2d f s =
     (let f_val = tmax_2d s * f * f;
          scale = 100;
          n = nat (n_2d s)
      in s\<lparr>F_2d := fold (\<lambda>j. fold (init_source_point_2d s f_val scale j) [0..<n])
                        [0..<n] (F_2d s)\<rparr>)"

text \<open>
  The constructor. The vectors have \<open>n * n\<close> entries, which is not negative, so the
  constructor does not throw.
\<close>

definition HeatEquationSolver2D_new ::
  "Material \<Rightarrow> real \<Rightarrow> real \<Rightarrow> real \<Rightarrow> real \<Rightarrow> int \<Rightarrow> HeatEquationSolver2D" where
  "HeatEquationSolver2D_new m L tmax u0 f n =
     init_source_2d f
       \<lparr>mat_2d = m, L_2d = L, tmax_2d = tmax,
        dx_2d = L / real_of_int (n - 1),
        dt_2d = tmax / 1000,
        u0_kelvin_2d = u0 + KELVIN_OFFSET,
        t_2d = 0, n_2d = n,
        u_2d = replicate (nat (n * n)) (u0 + KELVIN_OFFSET),
        F_2d = replicate (nat (n * n)) 0\<rparr>"

definition max_iter :: nat where
  "max_iter = 100"

definition tol :: real where
  "tol = 1 / 10 ^ 6"

text \<open>The body of the two inner loops of \<open>step\<close>, for the grid point \<open>(i, j)\<close>.\<close>

definition gs_point ::
  "HeatEquationSolver2D \<Rightarrow> real \<Rightarrow> real \<Rightarrow> nat \<Rightarrow> nat \<Rightarrow> real list \<times> real \<Rightarrow> real list \<times> real" where
  "gs_point s r src_coef j i = (\<lambda>(u_new, max_diff).
     if int i = n_2d s - 1 \<or> int j = n_2d s - 1
     then (u_new[idx s i j := u0_kelvin_2d s], max_diff)
     else
       let old_val = u_new ! idx s i j;
           u_left = (if i > 0 then u_new ! idx s (i - 1) j else u_new ! idx s 1 j);
           u_right = u_new ! idx s (i + 1) j;
           u_down = (if j > 0 then u_new ! idx s i (j - 1) else u_new ! idx s i 1);
           u_up = u_new ! idx s i (j + 1);
           rhs = u_2d s ! idx s i j + src_coef * F_2d s ! idx s i j;
           u_new = u_new[idx s i j :=
                     (rhs + r * (u_left + u_right + u_down + u_up)) / (1 + 4 * r)]
       in (u_new, max max_diff \<bar>u_new ! idx s i j - old_val\<bar>))"

text \<open>One sweep over the grid: \<open>max_diff\<close> starts at 0, rows outside, columns inside.\<close>

definition gs_sweep ::
  "HeatEquationSolver2D \<Rightarrow> real \<Rightarrow> real \<Rightarrow> real list \<Rightarrow> real list \<times> real" where
  "gs_sweep s r src_coef u_new =
     fold (\<lambda>j. fold (gs_point s r src_coef j) [0..<nat (n_2d s)]) [0..<nat (n_2d s)] (u_new, 0)"

text \<open>The loop over \<open>iter\<close>; the argument counts the sweeps that are left.\<close>

fun gs_iterate ::
  "HeatEquationSolver2D \<Rightarrow> real \<Rightarrow> real \<Rightarrow> nat \<Rightarrow> real list \<Rightarrow> real list" where
  "gs_iterate s r src_coef 0 u_new = u_new"
| "gs_iterate s r src_coef (Suc k) u_new =
     (case gs_sweep s r src_coef u_new of
        (u_new', max_diff) \<Rightarrow>
          if max_diff < tol then u_new' else gs_iterate s r src_coef k u_new')"

definition step_2d :: "HeatEquationSolver2D \<Rightarrow> bool \<times> HeatEquationSolver2D" where
  "step_2d s =
     (if t_2d s \<ge> tmax_2d s then (False, s)
      else
        let r = alpha (mat_2d s) * dt_2d s / (dx_2d s * dx_2d s);
            src_coef = dt_2d s / (rho (mat_2d s) * c_heat (mat_2d s));
            u_new = gs_iterate s r src_coef max_iter (u_2d s)
        in (True, s\<lparr>u_2d := u_new, t_2d := t_2d s + dt_2d s\<rparr>))"

text \<open>The point accessor, for the indices of a grid point.\<close>

definition get_temperature :: "HeatEquationSolver2D \<Rightarrow> nat \<Rightarrow> nat \<Rightarrow> real" where
  "get_temperature s i j = u_2d s ! idx s i j"

text \<open>
  \<open>get_temperature_2d\<close> builds \<open>n_\<close> rows of \<open>n_\<close> zeros and fills them; a negative
  \<open>n_\<close> makes the constructor of the result throw.
\<close>

definition get_temperature_2d :: "HeatEquationSolver2D \<Rightarrow> fault + real list list" where
  "get_temperature_2d s =
     (if n_2d s < 0 then Inl LengthError
      else
        let n = nat (n_2d s);
            result = replicate n (replicate n 0)
        in Inr (fold (\<lambda>j. fold (\<lambda>i result. result[j := (result ! j)[i := u_2d s ! idx s i j]])
                              [0..<n])
                  [0..<n] result))"

definition reset_2d :: "HeatEquationSolver2D \<Rightarrow> HeatEquationSolver2D" where
  "reset_2d s = s\<lparr>t_2d := 0, u_2d := replicate (length (u_2d s)) (u0_kelvin_2d s)\<rparr>"

fun steps_2d :: "nat \<Rightarrow> HeatEquationSolver2D \<Rightarrow> HeatEquationSolver2D" where
  "steps_2d 0 s = s"
| "steps_2d (Suc k) s = steps_2d k (snd (step_2d s))"

text \<open>The buffer after \<open>m\<close> sweeps of the relaxation that start from \<open>u\<close>.\<close>

definition sweeps ::
  "HeatEquationSolver2D \<Rightarrow> real \<Rightarrow> real \<Rightarrow> nat \<Rightarrow> real list \<Rightarrow> real list" where
  "sweeps s r src_coef m u = ((\<lambda>b. fst (gs_sweep s r src_coef b)) ^^ m) u"

section \<open>The linear system of the 1D step\<close>

text \<open>
  Names for the diffusion number and the four vectors that \<open>step\<close> passes to
  \<open>solve_tridiagonal\<close>, as they are after the boundary rows have been written.
\<close>

definition sys_r :: "HeatEquationSolver1D \<Rightarrow> real" where
  "sys_r s = alpha (mat_1d s) * dt_1d s / (dx_1d s * dx_1d s)"

definition sys_a :: "HeatEquationSolver1D \<Rightarrow> real list" where
  "sys_a s = (replicate (nat (n_1d s)) (- sys_r s))[nat (n_1d s) - 1 := 0]"

definition sys_b :: "HeatEquationSolver1D \<Rightarrow> real list" where
  "sys_b s = (replicate (nat (n_1d s)) (1 + 2 * sys_r s))[0 := 1 + sys_r s, nat (n_1d s) - 1 := 1]"

definition sys_c :: "HeatEquationSolver1D \<Rightarrow> real list" where
  "sys_c s = (replicate (nat (n_1d s)) (- sys_r s))[0 := - sys_r s, nat (n_1d s) - 1 := 0]"

definition sys_d :: "HeatEquationSolver1D \<Rightarrow> real list" where
  "sys_d s =
     (fold (\<lambda>i d. d[i := u_1d s ! i + dt_1d s / (rho (mat_1d s) * c_heat (mat_1d s)) * F_1d s ! i])
        [0..<nat (n_1d s)] (replicate (nat (n_1d s)) 0))
     [nat (n_1d s) - 1 := u0_kelvin_1d s]"

section \<open>States of a constructed solver\<close>

text \<open>
  What the 2D constructor establishes (for \<open>n \<ge> 0\<close>) and \<open>step\<close> and \<open>reset\<close>
  keep: the vectors have one entry per grid point, and the entries on the right and the
  top edge hold the reference temperature.
\<close>

definition wf_2d :: "HeatEquationSolver2D \<Rightarrow> bool" where
  "wf_2d s \<longleftrightarrow>
     0 \<le> n_2d s \<and>
     length (u_2d s) = nat (n_2d s) * nat (n_2d s) \<and>
     length (F_2d s) = nat (n_2d s) * nat (n_2d s) \<and>
     (\<forall>i < nat (n_2d s). \<forall>j < nat (n_2d s).
        int i = n_2d s - 1 \<or> int j = n_2d s - 1 \<longrightarrow> u_2d s ! idx s i j = u0_kelvin_2d s)"

section \<open>The relaxation in the words of the specification\<close>

text \<open>
  The update of the point \<open>(i, j)\<close> in a sweep that turns the buffer \<open>cur\<close> into
  \<open>new\<close>: the left and the lower neighbour have been visited in this sweep, the right
  and the upper one have not; at \<open>i = 0\<close> and at \<open>j = 0\<close> the value at index 1 stands
  for the missing neighbour.
\<close>

definition spec_update ::
  "HeatEquationSolver2D \<Rightarrow> real \<Rightarrow> real \<Rightarrow> real list \<Rightarrow> real list \<Rightarrow> nat \<Rightarrow> nat \<Rightarrow> real" where
  "spec_update s r coef cur new i j =
     (let left = (if i = 0 then cur ! idx s 1 j else new ! idx s (i - 1) j);
          right = cur ! idx s (i + 1) j;
          down = (if j = 0 then cur ! idx s i 1 else new ! idx s i (j - 1));
          up = cur ! idx s i (j + 1)
      in (u_2d s ! idx s i j + coef * F_2d s ! idx s i j + r * (left + right + down + up))
           / (1 + 4 * r))"

definition spec_sweep ::
  "HeatEquationSolver2D \<Rightarrow> real \<Rightarrow> real \<Rightarrow> real list \<Rightarrow> real list \<Rightarrow> bool" where
  "spec_sweep s r coef cur new \<longleftrightarrow>
     length new = length cur \<and>
     (\<forall>i < nat (n_2d s). \<forall>j < nat (n_2d s).
        new ! idx s i j =
          (if int i = n_2d s - 1 \<or> int j = n_2d s - 1 then u0_kelvin_2d s
           else spec_update s r coef cur new i j))"

text \<open>The largest absolute change of an entry between two buffers (0 for an empty grid).\<close>

definition spec_max_change :: "real list \<Rightarrow> real list \<Rightarrow> real" where
  "spec_max_change cur new = Max (insert 0 ((\<lambda>k. \<bar>new ! k - cur ! k\<bar>) ` {..<length cur}))"

section \<open>Invariants used in the proofs\<close>

text \<open>
  The state of a sweep from the buffer \<open>cur\<close> when the entries below the flat index
  \<open>m\<close> have been visited: the visited entries have their new value, the others are
  those of \<open>cur\<close>, and \<open>max_diff\<close> is the largest change so far (given that the
  Dirichlet entries of \<open>cur\<close> hold the reference temperature already).
\<close>

definition sweep_inv ::
  "HeatEquationSolver2D \<Rightarrow> real \<Rightarrow> real \<Rightarrow> real list \<Rightarrow> nat \<Rightarrow> real list \<times> real \<Rightarrow> bool" where
  "sweep_inv s r q cur m st \<longleftrightarrow>
     length (fst st) = length cur \<and>
     (\<forall>k. m \<le> k \<longrightarrow> fst st ! k = cur ! k) \<and>
     (\<forall>i < nat (n_2d s). \<forall>j < nat (n_2d s). idx s i j < m \<longrightarrow>
        fst st ! idx s i j =
          (if int i = n_2d s - 1 \<or> int j = n_2d s - 1 then u0_kelvin_2d s
           else spec_update s r q cur (fst st) i j)) \<and>
     ((\<forall>i < nat (n_2d s). \<forall>j < nat (n_2d s).
         int i = n_2d s - 1 \<or> int j = n_2d s - 1 \<longrightarrow> cur ! idx s i j = u0_kelvin_2d s) \<longrightarrow>
      snd st = Max (insert 0 ((\<lambda>k. \<bar>fst st ! k - cur ! k\<bar>) ` {..<m})))"

text \<open>
  A uniform field at the reference temperature, no source, and a diffusion number that is
  not negative.
\<close>

definition uniform_1d :: "HeatEquationSolver1D \<Rightarrow> bool" where
  "uniform_1d s \<longleftrightarrow>
     1 \<le> n_1d s \<and> u_1d s = replicate (nat (n_1d s)) (u0_kelvin_1d s) \<and>
     (\<forall>i < nat (n_1d s). F_1d s ! i = 0) \<and> 0 \<le> sys_r s"

definition uniform_2d :: "HeatEquationSolver2D \<Rightarrow> bool" where
  "uniform_2d s \<longleftrightarrow>
     u_2d s = replicate (nat (n_2d s) * nat (n_2d s)) (u0_kelvin_2d s) \<and>
     (\<forall>k < nat (n_2d s) * nat (n_2d s). F_2d s ! k = 0) \<and>
     0 \<le> alpha (mat_2d s) * dt_2d s / (dx_2d s * dx_2d s)"

section \<open>The time variable in binary64\<close>

text \<open>
  Whether \<open>step\<close> returns true, and the new \<open>t_\<close>, depend on \<open>tmax_\<close>, \<open>dt_\<close>
  and \<open>t_\<close> only, in both solvers. This section models these three members as binary64
  numbers. A finite binary64 number is \<open>m * 2 ^ e\<close> with \<open>\<bar>m\<bar> \<le> 2 ^ 53\<close>; the sum
  and the quotient are the exact results rounded to the nearest such number, ties to the
  even mantissa (IEEE 754, the default rounding). The range of the exponent is not
  modelled: no value here leaves the normal range. The divisor is not zero.
\<close>

datatype b64 = B64 int int

function bit_length :: "int \<Rightarrow> nat" where
  "bit_length n = (if n \<le> 0 then 0 else Suc (bit_length (n div 2)))"
  by pat_completeness auto
termination
  by (relation "measure nat") auto

declare bit_length.simps [simp del]

text \<open>\<open>M / 2 ^ k\<close> rounded to the nearest integer, ties to even, for \<open>M \<ge> 0\<close>.\<close>

definition round_shift :: "int \<Rightarrow> nat \<Rightarrow> int" where
  "round_shift M k =
     (if k = 0 then M
      else let q = M div 2 ^ k; r = M mod 2 ^ k; h = 2 ^ (k - 1)
           in if r > h \<or> (r = h \<and> odd q) then q + 1 else q)"

text \<open>\<open>M * 2 ^ e\<close> rounded to 53 significant bits.\<close>

definition b64_round :: "int \<Rightarrow> int \<Rightarrow> b64" where
  "b64_round M e =
     (let k = bit_length \<bar>M\<bar> - 53
      in B64 (sgn M * round_shift \<bar>M\<bar> k) (e + int k))"

definition b64_add :: "b64 \<Rightarrow> b64 \<Rightarrow> b64" where
  "b64_add x y = (case (x, y) of (B64 m1 e1, B64 m2 e2) \<Rightarrow>
     let e = min e1 e2
     in b64_round (m1 * 2 ^ nat (e1 - e) + m2 * 2 ^ nat (e2 - e)) e)"

text \<open>
  The quotient is computed to at least 56 bits; the last bit records whether the division
  left a remainder, so that rounding it is rounding the exact quotient.
\<close>

definition b64_div :: "b64 \<Rightarrow> b64 \<Rightarrow> b64" where
  "b64_div x y = (case (x, y) of (B64 m1 e1, B64 m2 e2) \<Rightarrow>
     let s = 55 + bit_length \<bar>m2\<bar>;
         q = (\<bar>m1\<bar> * 2 ^ s) div \<bar>m2\<bar>;
         r = (\<bar>m1\<bar> * 2 ^ s) mod \<bar>m2\<bar>;
         M = 2 * q + (if r = 0 then 0 else 1)
     in b64_round (sgn m1 * sgn m2 * M) (e1 - e2 - int s - 1))"

definition b64_ge :: "b64 \<Rightarrow> b64 \<Rightarrow> bool" where
  "b64_ge x y = (case (x, y) of (B64 m1 e1, B64 m2 e2) \<Rightarrow>
     let e = min e1 e2
     in m1 * 2 ^ nat (e1 - e) \<ge> m2 * 2 ^ nat (e2 - e))"

definition b64_val :: "b64 \<Rightarrow> real" where
  "b64_val x = (case x of B64 m e \<Rightarrow>
     if 0 \<le> e then real_of_int m * 2 ^ nat e else real_of_int m / 2 ^ nat (- e))"

record time64 =
  tmax64 :: b64
  dt64 :: b64
  t64 :: b64

text \<open>The constructors: \<open>dt_(tmax / 1000.0)\<close> and \<open>t_(0.0)\<close>.\<close>

definition time64_new :: "b64 \<Rightarrow> time64" where
  "time64_new tmax = \<lparr>tmax64 = tmax, dt64 = b64_div tmax (B64 1000 0), t64 = B64 0 0\<rparr>"

text \<open>\<open>step\<close>: \<open>if (t_ >= tmax_) return false; ...; t_ += dt_; return true;\<close>\<close>

definition step_time64 :: "time64 \<Rightarrow> bool \<times> time64" where
  "step_time64 s =
     (if b64_ge (t64 s) (tmax64 s) then (False, s)
      else (True, s\<lparr>t64 := b64_add (t64 s) (dt64 s)\<rparr>))"

text \<open>
  \<open>k\<close> calls of \<open>step\<close> in a row, up to the first one that returns false: the
  result is true when none of them did, with the state after the last call made.
\<close>

fun run64 :: "nat \<Rightarrow> time64 \<Rightarrow> bool \<times> time64" where
  "run64 0 s = (True, s)"
| "run64 (Suc k) s =
     (case step_time64 s of (ok, s') \<Rightarrow> if ok then run64 k s' else (False, s'))"

text \<open>The time members of a solver with \<open>tmax = 10\<close> when \<open>t_\<close> is \<open>m * 2 ^ e\<close>.\<close>

definition at64 :: "int \<Rightarrow> int \<Rightarrow> time64" where
  "at64 m e = \<lparr>tmax64 = B64 10 0, dt64 = B64 5764607523034235 (- 59), t64 = B64 m e\<rparr>"

section \<open>Solver states used as examples\<close>

definition done_1d :: HeatEquationSolver1D where
  "done_1d = \<lparr>mat_1d = COPPER, L_1d = 1, tmax_1d = 1, dx_1d = 1 / 4, dt_1d = 1 / 1000,
     u0_kelvin_1d = 273.15, t_1d = 1, n_1d = 5,
     u_1d = [280, 279, 278, 275, 273.15], F_1d = [0, 0, 0, 0, 0]\<rparr>"

definition done_2d :: HeatEquationSolver2D where
  "done_2d = \<lparr>mat_2d = IRON, L_2d = 1, tmax_2d = 16, dx_2d = 1, dt_2d = 16 / 1000,
     u0_kelvin_2d = 286.15, t_2d = 16.016, n_2d = 2,
     u_2d = [290, 286.15, 286.15, 286.15], F_2d = [0, 0, 0, 0]\<rparr>"

text \<open>
  \<open>w1\<close> is the 1D solver for copper with \<open>L = 1\<close>, \<open>tmax = 1\<close>, \<open>u0 = 13\<close>,
  \<open>f = 80\<close>, \<open>n = 3\<close>, and \<open>w1_next\<close> its state after one step. \<open>w2\<close> is a 2D
  state with one inner point, and \<open>w2_next\<close> its state after one step (two sweeps).
\<close>

definition w1 :: HeatEquationSolver1D where
  "w1 = \<lparr>mat_1d = COPPER, L_1d = 1, tmax_1d = 1, dx_1d = 1 / 2, dt_1d = 1 / 1000,
     u0_kelvin_1d = 286.15, t_1d = 0, n_1d = 3,
     u_1d = [286.15, 286.15, 286.15], F_1d = [0, 480000, 0]\<rparr>"

definition w1_next :: HeatEquationSolver1D where
  "w1_next = w1\<lparr>u_1d := [4128065606526530910083 / 14426229622665026420,
                         4128067644846530910083 / 14426229622665026420, 286.15],
                t_1d := 1 / 1000\<rparr>"

definition w2 :: HeatEquationSolver2D where
  "w2 = \<lparr>mat_2d = IRON, L_2d = 1, tmax_2d = 16, dx_2d = 1, dt_2d = 16 / 1000,
     u0_kelvin_2d = 286.15, t_2d = 0, n_2d = 2,
     u_2d = [290, 286.15, 286.15, 286.15], F_2d = [500000, 0, 0, 0]\<rparr>"

definition w2_next :: HeatEquationSolver2D where
  "w2_next = w2\<lparr>u_2d := [1569893544923 / 5413383020, 286.15, 286.15, 286.15],
                t_2d := 16 / 1000\<rparr>"

section \<open>Past the horizon\<close>

lemma steps_1d_done: "t_1d s \<ge> tmax_1d s \<Longrightarrow> steps_1d k s = Inr s"
  by (induction k) (simp_all add: step_1d_def)

lemma steps_2d_done: "t_2d s \<ge> tmax_2d s \<Longrightarrow> steps_2d k s = s"
  by (induction k) (simp_all add: step_2d_def)

text \<open>
  C3: for both solvers, when \<open>t \<ge> tmax\<close> the call of \<open>step\<close> returns false and leaves
  the whole state (field and time) as it is; after any number of such calls the state is
  still the same, so every further call returns false again.
\<close>

theorem step_past_horizon:
  "(t_1d s1 \<ge> tmax_1d s1 \<longrightarrow>
      step_1d s1 = Inr (False, s1) \<and> steps_1d k s1 = Inr s1) \<and>
   (t_2d s2 \<ge> tmax_2d s2 \<longrightarrow>
      step_2d s2 = (False, s2) \<and> steps_2d k s2 = s2)"
  by (simp add: steps_1d_done steps_2d_done) (simp add: step_1d_def step_2d_def)

theorem step_past_horizon_witness:
  "t_1d done_1d \<ge> tmax_1d done_1d \<and> t_2d done_2d \<ge> tmax_2d done_2d \<and>
   step_1d done_1d = Inr (False, done_1d) \<and> steps_1d 3 done_1d = Inr done_1d \<and>
   step_2d done_2d = (False, done_2d) \<and> steps_2d 3 done_2d = done_2d"
proof -
  have h1: "t_1d done_1d \<ge> tmax_1d done_1d" by (simp add: done_1d_def)
  have h2: "t_2d done_2d \<ge> tmax_2d done_2d" by (simp add: done_2d_def)
  show ?thesis
    using step_past_horizon [of done_1d 3 done_2d] h1 h2 by simp
qed

section \<open>Writes in a loop\<close>

lemma fold_write_length [simp]:
  "length (fold (\<lambda>i xs. xs[g i := f i]) is xs) = length xs"
  by (induction "is" arbitrary: xs) simp_all

lemma fold_write_other:
  "k \<notin> g ` set is \<Longrightarrow> fold (\<lambda>i xs. xs[g i := f i]) is xs ! k = xs ! k"
  by (induction "is" arbitrary: xs) auto

lemma fold_write_nth:
  "distinct is \<Longrightarrow> inj_on g (set is) \<Longrightarrow> i \<in> set is \<Longrightarrow> g i < length xs \<Longrightarrow>
   fold (\<lambda>i xs. xs[g i := f i]) is xs ! g i = f i"
proof (induction "is" arbitrary: xs)
  case Nil
  then show ?case by simp
next
  case (Cons a as)
  show ?case
  proof (cases "i = a")
    case True
    have "g a \<notin> g ` set as"
      using Cons.prems(1,2) by (auto simp: inj_on_def)
    then show ?thesis
      using True Cons.prems(4) by (simp add: fold_write_other)
  next
    case False
    then show ?thesis
      using Cons by (auto simp: inj_on_def)
  qed
qed

lemma fold_rows_length [simp]:
  "length (fold (\<lambda>j res. res[j := h j (res ! j)]) js res) = length res"
  by (induction js arbitrary: res) simp_all

lemma fold_rows_other:
  "k \<notin> set js \<Longrightarrow> fold (\<lambda>j res. res[j := h j (res ! j)]) js res ! k = res ! k"
  by (induction js arbitrary: res) auto

lemma fold_rows_nth:
  "distinct js \<Longrightarrow> j \<in> set js \<Longrightarrow> j < length res \<Longrightarrow>
   fold (\<lambda>j res. res[j := h j (res ! j)]) js res ! j = h j (res ! j)"
proof (induction js arbitrary: res)
  case Nil
  then show ?case by simp
next
  case (Cons a as)
  then show ?case
    by (cases "j = a") (auto simp: fold_rows_other)
qed

lemma fold_row_cells_app:
  "fold (\<lambda>i res. res[j := (res ! j)[i := f i]]) is res =
   res[j := fold (\<lambda>i row. row[i := f i]) is (res ! j)]"
proof (induction "is" arbitrary: res)
  case Nil
  then show ?case by simp
next
  case (Cons a as)
  show ?case
  proof (cases "j < length res")
    case True
    then show ?thesis by (simp add: Cons.IH)
  next
    case False
    then show ?thesis by (simp add: Cons.IH list_update_beyond not_less)
  qed
qed

lemma fold_row_cells:
  "fold (\<lambda>i res. res[j := (res ! j)[i := f i]]) is =
   (\<lambda>res. res[j := fold (\<lambda>i row. row[i := f i]) is (res ! j)])"
  by (rule ext) (rule fold_row_cells_app)

section \<open>The flat index and the accessors\<close>

lemma idx_inj: "i < n \<Longrightarrow> i' < n \<Longrightarrow> j * n + i = j' * n + i' \<longleftrightarrow> j = j' \<and> i = (i'::nat)"
  by (metis add_diff_cancel_left' div_mult_self3 div_less add_cancel_right_left not_less_zero add.commute less_nat_zero_code)

lemma idx_less: "i < n \<Longrightarrow> j < n \<Longrightarrow> j * n + i < n * (n::nat)"
proof -
  assume a: "i < n" "j < n"
  then have "j * n + i < j * n + n" by simp
  also have "\<dots> = Suc j * n" by simp
  also have "\<dots> \<le> n * n" using a(2) by (metis Suc_leI mult.commute mult_le_mono2)
  finally show ?thesis .
qed

text \<open>
  C10: for a 2D solver and indices \<open>0 \<le> i < n\<close>, \<open>0 \<le> j < n\<close>,
  \<open>get_temperature_2d\<close> returns a grid \<open>g\<close>, and \<open>get_temperature(i, j)\<close> is
  \<open>g[j][i]\<close>; both are the entry \<open>j * n + i\<close> of the flat buffer.
\<close>

theorem get_temperature_agrees:
  assumes "int i < n_2d s" and "int j < n_2d s"
  shows "\<exists>g. get_temperature_2d s = Inr g \<and>
             get_temperature s i j = g ! j ! i \<and>
             get_temperature s i j = u_2d s ! (j * nat (n_2d s) + i)"
proof -
  let ?n = "nat (n_2d s)"
  let ?row = "\<lambda>j row. fold (\<lambda>i row. row[i := u_2d s ! idx s i j]) [0..<?n] row"
  let ?g = "fold (\<lambda>j res. res[j := ?row j (res ! j)]) [0..<?n] (replicate ?n (replicate ?n 0))"
  have i: "i < ?n" and j: "j < ?n" using assms by linarith+
  have g: "get_temperature_2d s = Inr ?g"
    using assms by (simp add: get_temperature_2d_def fold_row_cells Let_def)
  have "?g ! j = ?row j (replicate ?n 0)"
    using j by (subst fold_rows_nth) simp_all
  also have "\<dots> ! i = u_2d s ! idx s i j"
    using i fold_write_nth [of "[0..<?n]" "\<lambda>i. i" i "replicate ?n 0" "\<lambda>i. u_2d s ! idx s i j"]
    by simp
  finally have "?g ! j ! i = u_2d s ! idx s i j" .
  then show ?thesis
    using g by (simp add: get_temperature_def idx_def)
qed

section \<open>What a step keeps\<close>

subsection \<open>1D\<close>

lemma back_subst_length [simp]:
  "length (fold (back_subst cp dp) is x) = length x"
  by (induction "is" arbitrary: x) (simp_all add: back_subst_def)

lemma solve_tridiagonal_length:
  "solve_tridiagonal a b c d x = Inr y \<Longrightarrow> length y = length x"
  by (auto simp: solve_tridiagonal_def Let_def split_beta split: if_splits)

lemma solve_tridiagonal_ok:
  "length b \<noteq> 0 \<Longrightarrow> length a = length b \<Longrightarrow> length c = length b \<Longrightarrow> length d = length b \<Longrightarrow>
   length x = length b \<Longrightarrow> \<exists>y. solve_tridiagonal a b c d x = Inr y"
  by (simp add: solve_tridiagonal_def Let_def split_beta)

lemma step_1d_frame:
  assumes "step_1d s = Inr (ok, s')"
  shows "s' = s\<lparr>u_1d := u_1d s', t_1d := t_1d s'\<rparr>"
    and "ok = (\<not> tmax_1d s \<le> t_1d s)"
    and "t_1d s' = (if ok then t_1d s + dt_1d s else t_1d s)"
    and "length (u_1d s') = (if ok then nat (n_1d s) else length (u_1d s))"
  using assms
  by (auto simp: step_1d_def Let_def split: if_splits sum.splits dest!: solve_tridiagonal_length)

lemma sys_length [simp]:
  "length (sys_a s) = nat (n_1d s)" "length (sys_b s) = nat (n_1d s)"
  "length (sys_c s) = nat (n_1d s)" "length (sys_d s) = nat (n_1d s)"
  by (simp_all add: sys_a_def sys_b_def sys_c_def sys_d_def)

lemma step_1d_sys:
  assumes "\<not> tmax_1d s \<le> t_1d s" and "1 \<le> n_1d s"
  shows "step_1d s =
     (case solve_tridiagonal (sys_a s) (sys_b s) (sys_c s) (sys_d s) (replicate (nat (n_1d s)) 0) of
        Inl e \<Rightarrow> Inl e
      | Inr u_new \<Rightarrow> Inr (True, s\<lparr>u_1d := u_new, t_1d := t_1d s + dt_1d s\<rparr>))"
  using assms
  by (simp add: step_1d_def Let_def sys_a_def sys_b_def sys_c_def sys_d_def sys_r_def)

lemma step_1d_total:
  assumes "1 \<le> n_1d s"
  shows "\<exists>ok s'. step_1d s = Inr (ok, s')"
proof (cases "tmax_1d s \<le> t_1d s")
  case True
  then have "step_1d s = Inr (False, s)" by (simp add: step_1d_def)
  then show ?thesis by blast
next
  case False
  let ?n = "nat (n_1d s)"
  have n: "?n \<noteq> 0" using assms by simp
  from solve_tridiagonal_ok [of "sys_b s" "sys_a s" "sys_c s" "sys_d s" "replicate ?n 0"] n
  obtain y where "solve_tridiagonal (sys_a s) (sys_b s) (sys_c s) (sys_d s) (replicate ?n 0) = Inr y"
    by auto
  then have "step_1d s = Inr (True, s\<lparr>u_1d := y, t_1d := t_1d s + dt_1d s\<rparr>)"
    using step_1d_sys [OF False assms] by simp
  then show ?thesis by blast
qed

lemma steps_1d_frame:
  "steps_1d k s = Inr s' \<Longrightarrow> length (u_1d s) = nat (n_1d s) \<Longrightarrow>
   s' = s\<lparr>u_1d := u_1d s', t_1d := t_1d s'\<rparr> \<and> length (u_1d s') = nat (n_1d s)"
proof (induction k arbitrary: s)
  case 0
  then show ?case by simp
next
  case (Suc k)
  from Suc.prems(1) obtain ok s1 where s1: "step_1d s = Inr (ok, s1)" and
    rest: "steps_1d k s1 = Inr s'"
    by (auto split: sum.splits)
  note fr = step_1d_frame [OF s1]
  have n1: "n_1d s1 = n_1d s" by (subst fr(1)) simp
  have len: "length (u_1d s1) = nat (n_1d s1)"
    using fr(4) Suc.prems(2) n1 by (simp split: if_splits)
  from Suc.IH [OF rest len] have
    a: "s' = s1\<lparr>u_1d := u_1d s', t_1d := t_1d s'\<rparr>" and b: "length (u_1d s') = nat (n_1d s1)"
    by simp_all
  have "s' = s\<lparr>u_1d := u_1d s', t_1d := t_1d s'\<rparr>"
    by (subst a, subst fr(1)) simp
  then show ?case using b n1 by simp
qed

lemma new_1d_fields:
  assumes "HeatEquationSolver1D_new m L tmax u0 f n = Inr s"
  shows "0 \<le> n" "mat_1d s = m" "L_1d s = L" "tmax_1d s = tmax" "dx_1d s = L / real_of_int (n - 1)"
    "dt_1d s = tmax / 1000" "u0_kelvin_1d s = u0 + KELVIN_OFFSET" "t_1d s = 0" "n_1d s = n"
    "u_1d s = replicate (nat n) (u0 + KELVIN_OFFSET)"
  using assms
  by (auto simp: HeatEquationSolver1D_new_def init_source_1d_def Let_def split: if_splits)

subsection \<open>2D\<close>

lemma gs_point_length [simp]:
  "length (fst (gs_point s r q j i st)) = length (fst st)"
  by (simp add: gs_point_def split_beta Let_def)

lemma gs_row_length [simp]:
  "length (fst (fold (gs_point s r q j) is st)) = length (fst st)"
  by (induction "is" arbitrary: st) simp_all

lemma gs_rows_length [simp]:
  "length (fst (fold (\<lambda>j. fold (gs_point s r q j) is) js st)) = length (fst st)"
  by (induction js arbitrary: st) simp_all

lemma gs_sweep_length [simp]: "length (fst (gs_sweep s r q u)) = length u"
  by (simp add: gs_sweep_def)

lemma gs_iterate_length [simp]: "length (gs_iterate s r q k u) = length u"
proof (induction k arbitrary: u)
  case 0
  then show ?case by simp
next
  case (Suc k)
  have "length (fst (gs_sweep s r q u)) = length u" by simp
  then show ?case
    using Suc.IH [of "fst (gs_sweep s r q u)"] by (simp add: split_beta)
qed

lemma step_2d_frame:
  "snd (step_2d s) = s\<lparr>u_2d := u_2d (snd (step_2d s)), t_2d := t_2d (snd (step_2d s))\<rparr>"
  "length (u_2d (snd (step_2d s))) = length (u_2d s)"
  "fst (step_2d s) = (\<not> tmax_2d s \<le> t_2d s)"
  "t_2d (snd (step_2d s)) = (if fst (step_2d s) then t_2d s + dt_2d s else t_2d s)"
  by (simp_all add: step_2d_def Let_def)

lemma steps_2d_frame:
  "steps_2d k s = s\<lparr>u_2d := u_2d (steps_2d k s), t_2d := t_2d (steps_2d k s)\<rparr> \<and>
   length (u_2d (steps_2d k s)) = length (u_2d s)"
proof (induction k arbitrary: s)
  case 0
  then show ?case by simp
next
  case (Suc k)
  let ?s1 = "snd (step_2d s)"
  from Suc.IH [of ?s1] have
    a: "steps_2d k ?s1 = ?s1\<lparr>u_2d := u_2d (steps_2d k ?s1), t_2d := t_2d (steps_2d k ?s1)\<rparr>"
    and b: "length (u_2d (steps_2d k ?s1)) = length (u_2d ?s1)" by simp_all
  have "steps_2d k ?s1 = s\<lparr>u_2d := u_2d (steps_2d k ?s1), t_2d := t_2d (steps_2d k ?s1)\<rparr>"
    by (subst a, subst step_2d_frame(1)) simp
  then show ?case using b by (simp add: step_2d_frame(2))
qed

lemma new_2d_fields:
  "mat_2d (HeatEquationSolver2D_new m L tmax u0 f n) = m"
  "L_2d (HeatEquationSolver2D_new m L tmax u0 f n) = L"
  "tmax_2d (HeatEquationSolver2D_new m L tmax u0 f n) = tmax"
  "dx_2d (HeatEquationSolver2D_new m L tmax u0 f n) = L / real_of_int (n - 1)"
  "dt_2d (HeatEquationSolver2D_new m L tmax u0 f n) = tmax / 1000"
  "u0_kelvin_2d (HeatEquationSolver2D_new m L tmax u0 f n) = u0 + KELVIN_OFFSET"
  "t_2d (HeatEquationSolver2D_new m L tmax u0 f n) = 0"
  "n_2d (HeatEquationSolver2D_new m L tmax u0 f n) = n"
  "u_2d (HeatEquationSolver2D_new m L tmax u0 f n) = replicate (nat (n * n)) (u0 + KELVIN_OFFSET)"
  by (simp_all add: HeatEquationSolver2D_new_def init_source_2d_def Let_def)

section \<open>Reset\<close>

text \<open>
  C8: \<open>reset\<close> after any number \<open>k\<close> of calls of \<open>step\<close> on a constructed solver
  gives the state that the constructor returned for the same arguments: \<open>t = 0\<close>, the
  field filled with \<open>u0 + 273.15\<close>, every other member as constructed. \<open>reset\<close> does
  not touch the source field. (In 1D the calls of \<open>step\<close> are those that return.)
\<close>

theorem reset_restores_construction:
  "(HeatEquationSolver1D_new m L tmax u0 f n = Inr s1 \<and> steps_1d k s1 = Inr s1' \<longrightarrow>
      reset_1d s1' = s1 \<and> t_1d (reset_1d s1') = 0 \<and>
      u_1d (reset_1d s1') = replicate (nat n) (u0 + KELVIN_OFFSET) \<and>
      F_1d (reset_1d s1') = F_1d s1') \<and>
   (s2 = HeatEquationSolver2D_new m L tmax u0 f n \<and> s2' = steps_2d k s2 \<longrightarrow>
      reset_2d s2' = s2 \<and> t_2d (reset_2d s2') = 0 \<and>
      u_2d (reset_2d s2') = replicate (nat (n * n)) (u0 + KELVIN_OFFSET) \<and>
      F_2d (reset_2d s2') = F_2d s2')"
proof (intro conjI impI)
  assume a: "HeatEquationSolver1D_new m L tmax u0 f n = Inr s1 \<and> steps_1d k s1 = Inr s1'"
  note f = new_1d_fields [OF a [THEN conjunct1]]
  have len: "length (u_1d s1) = nat (n_1d s1)" using f by simp
  from steps_1d_frame [OF a [THEN conjunct2] len]
  have fr: "s1' = s1\<lparr>u_1d := u_1d s1', t_1d := t_1d s1'\<rparr>" and l: "length (u_1d s1') = nat n"
    using f by simp_all
  have "reset_1d s1' = s1\<lparr>t_1d := 0, u_1d := replicate (nat n) (u0 + KELVIN_OFFSET)\<rparr>"
    unfolding reset_1d_def by (subst (1 2 3) fr) (simp add: l f)
  also have "\<dots> = s1" using f(8,10) by simp
  finally show r: "reset_1d s1' = s1" .
  show "t_1d (reset_1d s1') = 0" by (simp add: reset_1d_def)
  show "u_1d (reset_1d s1') = replicate (nat n) (u0 + KELVIN_OFFSET)" using r f by simp
  show "F_1d (reset_1d s1') = F_1d s1'" by (simp add: reset_1d_def)
next
  assume a: "s2 = HeatEquationSolver2D_new m L tmax u0 f n \<and> s2' = steps_2d k s2"
  note f = new_2d_fields [of m L tmax u0 f n, folded a [THEN conjunct1]]
  from steps_2d_frame [of k s2]
  have fr: "s2' = s2\<lparr>u_2d := u_2d s2', t_2d := t_2d s2'\<rparr>" and l: "length (u_2d s2') = nat (n * n)"
    using f a by simp_all
  have "reset_2d s2' = s2\<lparr>t_2d := 0, u_2d := replicate (nat (n * n)) (u0 + KELVIN_OFFSET)\<rparr>"
    unfolding reset_2d_def by (subst (1 2 3) fr) (simp add: l f)
  also have "\<dots> = s2" using f(7,9) by simp
  finally show r: "reset_2d s2' = s2" .
  show "t_2d (reset_2d s2') = 0" by (simp add: reset_2d_def)
  show "u_2d (reset_2d s2') = replicate (nat (n * n)) (u0 + KELVIN_OFFSET)" using r f by simp
  show "F_2d (reset_2d s2') = F_2d s2'" by (simp add: reset_2d_def)
qed

section \<open>Loop invariants\<close>

lemma fold_upt_invariant:
  assumes "P a st" and "a \<le> b"
    and "\<And>i st. a \<le> i \<Longrightarrow> i < b \<Longrightarrow> P i st \<Longrightarrow> P (Suc i) (f i st)"
  shows "P b (fold f [a..<b] st)"
  using assms(2,3)
proof (induction b)
  case 0
  then show ?case using assms(1) by simp
next
  case (Suc b)
  show ?case
  proof (cases "a = Suc b")
    case True
    then show ?thesis using assms(1) by simp
  next
    case False
    then have ab: "a \<le> b" using Suc.prems(1) by simp
    have "P b (fold f [a..<b] st)"
      by (rule Suc.IH [OF ab]) (simp add: Suc.prems(2))
    then have "P (Suc b) (f b (fold f [a..<b] st))"
      using Suc.prems(2) [of b] ab by simp
    then show ?thesis using ab by simp
  qed
qed


section \<open>The 1D step\<close>

subsection \<open>The Thomas algorithm\<close>


subsection \<open>The entries of the 1D system\<close>






subsection \<open>The last entry after a 1D step\<close>


subsection \<open>The 1D step on a uniform field without source\<close>


section \<open>The 2D step\<close>

subsection \<open>One Gauss-Seidel sweep\<close>

lemma idx_row_less: "0 < j \<Longrightarrow> 0 < n \<Longrightarrow> (j - 1) * n + i < j * n + (i::nat)"
  by (cases j) simp_all

lemma spec_update_frame:
  assumes "idx s i j < k"
  shows "spec_update s r q cur (b[k := v]) i j = spec_update s r q cur b i j"
proof -
  have l: "(if i = 0 then cur ! idx s 1 j else b[k := v] ! idx s (i - 1) j) =
           (if i = 0 then cur ! idx s 1 j else b ! idx s (i - 1) j)"
  proof (cases "i = 0")
    case False
    then have "idx s (i - 1) j \<noteq> k" using assms by (auto simp: idx_def)
    then show ?thesis by simp
  qed simp
  have d: "(if j = 0 then cur ! idx s i 1 else b[k := v] ! idx s i (j - 1)) =
           (if j = 0 then cur ! idx s i 1 else b ! idx s i (j - 1))"
  proof (cases "j = 0")
    case False
    then have "(j - 1) * nat (n_2d s) + i \<le> j * nat (n_2d s) + i"
      by (cases j) simp_all
    then have "idx s i (j - 1) \<noteq> k" using assms unfolding idx_def by linarith
    then show ?thesis by simp
  qed simp
  show ?thesis by (simp only: spec_update_def Let_def l d)
qed

lemma sweep_inv_step:
  assumes len: "length cur = nat (n_2d s) * nat (n_2d s)"
    and i: "i < nat (n_2d s)" and j: "j < nat (n_2d s)"
    and inv: "sweep_inv s r q cur (idx s i j) st"
  shows "sweep_inv s r q cur (Suc (idx s i j)) (gs_point s r q j i st)"
proof -
  let ?n = "nat (n_2d s)"
  let ?k = "idx s i j"
  let ?dir = "\<lambda>i j. int i = n_2d s - 1 \<or> int j = n_2d s - 1"
  obtain b md where st: "st = (b, md)" by (cases st)
  have lb: "length b = length cur" and
    rest: "\<And>k. ?k \<le> k \<Longrightarrow> b ! k = cur ! k" and
    seen: "\<And>i' j'. i' < ?n \<Longrightarrow> j' < ?n \<Longrightarrow> idx s i' j' < ?k \<Longrightarrow>
        b ! idx s i' j' = (if ?dir i' j' then u0_kelvin_2d s else spec_update s r q cur b i' j')" and
    mx: "(\<forall>i < ?n. \<forall>j < ?n. ?dir i j \<longrightarrow> cur ! idx s i j = u0_kelvin_2d s) \<Longrightarrow>
        md = Max (insert 0 ((\<lambda>k. \<bar>b ! k - cur ! k\<bar>) ` {..<?k}))"
    using inv unfolding sweep_inv_def st by simp_all
  have k: "?k < length b" using i j lb len idx_less [of i ?n j] by (simp add: idx_def)
  define v where "v = (if ?dir i j then u0_kelvin_2d s else spec_update s r q cur b i j)"
  define b' where "b' = b[?k := v]"
  define md' where "md' = (if ?dir i j then md else max md \<bar>v - cur ! ?k\<bar>)"
  have step: "gs_point s r q j i st = (b', md')"
  proof (cases "?dir i j")
    case True
    then show ?thesis by (simp add: gs_point_def st b'_def md'_def v_def)
  next
    case False
    then have i1: "i + 1 < ?n" and j1: "j + 1 < ?n" using i j by linarith+
    have right: "b ! idx s (i + 1) j = cur ! idx s (i + 1) j"
      by (rule rest) (simp add: idx_def)
    have up: "b ! idx s i (j + 1) = cur ! idx s i (j + 1)"
      by (rule rest) (simp add: idx_def)
    have left: "(if 0 < i then b ! idx s (i - 1) j else b ! idx s 1 j) =
        (if i = 0 then cur ! idx s 1 j else b ! idx s (i - 1) j)"
    proof (cases "i = 0")
      case True
      have "b ! idx s 1 j = cur ! idx s 1 j" by (rule rest) (simp add: idx_def True)
      then show ?thesis using True by simp
    next
      case False
      then show ?thesis by simp
    qed
    have down: "(if 0 < j then b ! idx s i (j - 1) else b ! idx s i 1) =
        (if j = 0 then cur ! idx s i 1 else b ! idx s i (j - 1))"
    proof (cases "j = 0")
      case True
      have "b ! idx s i 1 = cur ! idx s i 1" by (rule rest) (simp add: idx_def True)
      then show ?thesis using True by simp
    next
      case False
      then show ?thesis by simp
    qed
    have val: "(u_2d s ! ?k + q * F_2d s ! ?k +
        r * ((if i > 0 then b ! idx s (i - 1) j else b ! idx s 1 j) + b ! idx s (i + 1) j +
             (if j > 0 then b ! idx s i (j - 1) else b ! idx s i 1) + b ! idx s i (j + 1)))
        / (1 + 4 * r) = v"
      by (simp only: left down right up v_def False if_False spec_update_def Let_def)
    have old: "b ! ?k = cur ! ?k" by (rule rest) simp
    have "gs_point s r q j i st = (b[?k := v], max md \<bar>b[?k := v] ! ?k - b ! ?k\<bar>)"
      by (simp only: gs_point_def st split_conv False if_False Let_def val)
    also have "b[?k := v] ! ?k = v" using k by simp
    finally show ?thesis using False by (simp add: b'_def md'_def old)
  qed
  have keep: "b' ! k = b ! k" if "k \<noteq> ?k" for k using that by (simp add: b'_def)
  have new: "b' ! ?k = v" using k by (simp add: b'_def)
  have upd: "spec_update s r q cur b' i' j' = spec_update s r q cur b i' j'"
    if "idx s i' j' \<le> ?k" for i' j'
  proof (cases "idx s i' j' = ?k")
    case False
    then show ?thesis using that by (simp add: b'_def spec_update_frame)
  next
    case True
    have l: "(if i' = 0 then cur ! idx s 1 j' else b' ! idx s (i' - 1) j') =
             (if i' = 0 then cur ! idx s 1 j' else b ! idx s (i' - 1) j')"
    proof (cases "i' = 0")
      case False
      then have "idx s (i' - 1) j' \<noteq> ?k" using True by (auto simp: idx_def)
      then show ?thesis by (simp add: keep)
    qed simp
    have d: "(if j' = 0 then cur ! idx s i' 1 else b' ! idx s i' (j' - 1)) =
             (if j' = 0 then cur ! idx s i' 1 else b ! idx s i' (j' - 1))"
    proof (cases "j' = 0")
      case False
      then have "(j' - 1) * ?n + i' < j' * ?n + i'" using i by (intro idx_row_less) simp_all
      then have "idx s i' (j' - 1) \<noteq> ?k" using True unfolding idx_def by linarith
      then show ?thesis by (simp add: keep)
    qed simp
    show ?thesis by (simp only: spec_update_def Let_def l d)
  qed
  have c1: "length b' = length cur" using lb by (simp add: b'_def)
  have c2: "\<forall>k. Suc ?k \<le> k \<longrightarrow> b' ! k = cur ! k" using rest keep by simp
  have c3: "b' ! idx s i' j' = (if ?dir i' j' then u0_kelvin_2d s else spec_update s r q cur b' i' j')"
    if p: "i' < ?n" "j' < ?n" "idx s i' j' < Suc ?k" for i' j'
  proof (cases "idx s i' j' = ?k")
    case True
    then have "j' = j \<and> i' = i" using idx_inj [of i' ?n i j' j] p i by (simp add: idx_def)
    then show ?thesis using new upd [of i j] by (simp add: v_def)
  next
    case False
    then have lt: "idx s i' j' < ?k" using p(3) by simp
    show ?thesis using seen [OF p(1,2) lt] keep [OF False] upd [of i' j'] lt by simp
  qed
  have c4: "md' = Max (insert 0 ((\<lambda>k. \<bar>b' ! k - cur ! k\<bar>) ` {..<Suc ?k}))"
    if pin: "\<forall>i < ?n. \<forall>j < ?n. ?dir i j \<longrightarrow> cur ! idx s i j = u0_kelvin_2d s"
  proof -
    let ?S = "(\<lambda>k. \<bar>b ! k - cur ! k\<bar>) ` {..<?k}"
    have same: "(\<lambda>k. \<bar>b' ! k - cur ! k\<bar>) ` {..<?k} = ?S"
      by (rule image_cong) (simp_all add: keep)
    have set: "(\<lambda>k. \<bar>b' ! k - cur ! k\<bar>) ` {..<Suc ?k} = insert \<bar>v - cur ! ?k\<bar> ?S"
      by (simp add: lessThan_Suc same new)
    have md: "md = Max (insert 0 ?S)" by (rule mx [OF pin])
    show ?thesis
    proof (cases "?dir i j")
      case True
      then have "cur ! ?k = u0_kelvin_2d s" using pin i j by blast
      then have "v = cur ! ?k" using True by (simp add: v_def)
      then show ?thesis using True md by (simp add: set md'_def)
    next
      case False
      have "Max (insert \<bar>v - cur ! ?k\<bar> (insert 0 ?S)) = max \<bar>v - cur ! ?k\<bar> (Max (insert 0 ?S))"
        by (rule Max_insert) simp_all
      then show ?thesis using False md by (simp add: set md'_def insert_commute max.commute)
    qed
  qed
  show ?thesis
    unfolding sweep_inv_def step using c1 c2 c3 c4 by simp
qed

lemma gs_sweep_inv:
  assumes len: "length cur = nat (n_2d s) * nat (n_2d s)"
  shows "sweep_inv s r q cur (nat (n_2d s) * nat (n_2d s)) (gs_sweep s r q cur)"
proof -
  let ?n = "nat (n_2d s)"
  have row: "sweep_inv s r q cur (Suc j * ?n) (fold (gs_point s r q j) [0..<?n] st)"
    if j: "j < ?n" and inv: "sweep_inv s r q cur (j * ?n) st" for j st
  proof -
    have "sweep_inv s r q cur (j * ?n + ?n) (fold (gs_point s r q j) [0..<?n] st)"
    proof (rule fold_upt_invariant [where P = "\<lambda>i. sweep_inv s r q cur (j * ?n + i)"])
      show "sweep_inv s r q cur (j * ?n + 0) st" using inv by simp
      show "0 \<le> ?n" by simp
    next
      fix i st' assume "i < ?n" and "sweep_inv s r q cur (j * ?n + i) st'"
      then show "sweep_inv s r q cur (j * ?n + Suc i) (gs_point s r q j i st')"
        using sweep_inv_step [OF len _ j, of i r q st'] by (simp add: idx_def)
    qed
    then show ?thesis by (simp add: add.commute)
  qed
  have "sweep_inv s r q cur (?n * ?n)
      (fold (\<lambda>j. fold (gs_point s r q j) [0..<?n]) [0..<?n] (cur, 0))"
  proof (rule fold_upt_invariant [where P = "\<lambda>j. sweep_inv s r q cur (j * ?n)"])
    show "sweep_inv s r q cur (0 * ?n) (cur, 0)" by (simp add: sweep_inv_def)
    show "0 \<le> ?n" by simp
  next
    fix j st assume "j < ?n" and "sweep_inv s r q cur (j * ?n) st"
    then show "sweep_inv s r q cur (Suc j * ?n) (fold (gs_point s r q j) [0..<?n] st)"
      by (rule row)
  qed
  then show ?thesis by (simp add: gs_sweep_def)
qed

lemma gs_sweep_spec:
  assumes "length cur = nat (n_2d s) * nat (n_2d s)"
  shows "spec_sweep s r q cur (fst (gs_sweep s r q cur))"
  using gs_sweep_inv [OF assms, of r q] assms
  by (simp add: sweep_inv_def spec_sweep_def idx_def idx_less)

lemma gs_sweep_change:
  assumes "length cur = nat (n_2d s) * nat (n_2d s)"
    and "\<forall>i < nat (n_2d s). \<forall>j < nat (n_2d s).
           int i = n_2d s - 1 \<or> int j = n_2d s - 1 \<longrightarrow> cur ! idx s i j = u0_kelvin_2d s"
  shows "snd (gs_sweep s r q cur) = spec_max_change cur (fst (gs_sweep s r q cur))"
  using gs_sweep_inv [OF assms(1), of r q] assms
  by (simp add: sweep_inv_def spec_max_change_def)

subsection \<open>The sweeps of one 2D step\<close>

lemma sweeps_0 [simp]: "sweeps s r q 0 u = u"
  by (simp add: sweeps_def)

lemma sweeps_Suc: "sweeps s r q (Suc m) u = fst (gs_sweep s r q (sweeps s r q m u))"
  by (simp add: sweeps_def)

lemma sweeps_Suc_first: "sweeps s r q (Suc m) u = sweeps s r q m (fst (gs_sweep s r q u))"
  by (simp only: sweeps_def funpow_Suc_right o_apply)

lemma sweeps_length [simp]: "length (sweeps s r q m u) = length u"
  by (induction m) (simp_all add: sweeps_Suc)

lemma sweeps_pinned:
  assumes "length u = nat (n_2d s) * nat (n_2d s)"
    and "m = 0 \<longrightarrow> (\<forall>i < nat (n_2d s). \<forall>j < nat (n_2d s).
           int i = n_2d s - 1 \<or> int j = n_2d s - 1 \<longrightarrow> u ! idx s i j = u0_kelvin_2d s)"
    and "i < nat (n_2d s)" and "j < nat (n_2d s)"
    and "int i = n_2d s - 1 \<or> int j = n_2d s - 1"
  shows "sweeps s r q m u ! idx s i j = u0_kelvin_2d s"
proof (cases m)
  case 0
  with assms(2) have "\<forall>i < nat (n_2d s). \<forall>j < nat (n_2d s).
      int i = n_2d s - 1 \<or> int j = n_2d s - 1 \<longrightarrow> u ! idx s i j = u0_kelvin_2d s"
    by blast
  then have "u ! idx s i j = u0_kelvin_2d s" using assms(3,4,5) by blast
  then show ?thesis using 0 by simp
next
  case (Suc m')
  have "length (sweeps s r q m' u) = nat (n_2d s) * nat (n_2d s)" using assms(1) by simp
  from gs_sweep_spec [OF this, where r = r and q = q] show ?thesis
    using assms(3,4,5) unfolding Suc sweeps_Suc spec_sweep_def by simp
qed

lemma gs_iterate_sweeps:
  "\<exists>k. 1 \<le> k \<and> k \<le> Suc K \<and> gs_iterate s r q (Suc K) u = sweeps s r q k u \<and>
       (\<forall>m. Suc m < k \<longrightarrow> \<not> snd (gs_sweep s r q (sweeps s r q m u)) < tol) \<and>
       (k < Suc K \<longrightarrow> snd (gs_sweep s r q (sweeps s r q (k - 1) u)) < tol)"
proof (induction K arbitrary: u)
  case 0
  have "gs_iterate s r q (Suc 0) u = sweeps s r q 1 u"
    by (simp add: sweeps_Suc split_beta)
  then show ?case by (intro exI [of _ 1]) simp
next
  case (Suc K)
  let ?u' = "fst (gs_sweep s r q u)"
  let ?md = "snd (gs_sweep s r q u)"
  show ?case
  proof (cases "?md < tol")
    case True
    then have "gs_iterate s r q (Suc (Suc K)) u = sweeps s r q 1 u"
      by (simp add: sweeps_Suc split_beta)
    then show ?thesis using True by (intro exI [of _ 1]) simp
  next
    case False
    then have it: "gs_iterate s r q (Suc (Suc K)) u = gs_iterate s r q (Suc K) ?u'"
      by (simp add: split_beta)
    from Suc.IH [of ?u'] obtain k where k: "1 \<le> k" "k \<le> Suc K"
      "gs_iterate s r q (Suc K) ?u' = sweeps s r q k ?u'"
      "\<forall>m. Suc m < k \<longrightarrow> \<not> snd (gs_sweep s r q (sweeps s r q m ?u')) < tol"
      "k < Suc K \<longrightarrow> snd (gs_sweep s r q (sweeps s r q (k - 1) ?u')) < tol"
      by blast
    have a: "gs_iterate s r q (Suc (Suc K)) u = sweeps s r q (Suc k) u"
      using it k(3) by (simp add: sweeps_Suc_first)
    have b: "\<not> snd (gs_sweep s r q (sweeps s r q m u)) < tol" if "Suc m < Suc k" for m
    proof (cases m)
      case 0
      then show ?thesis using False by simp
    next
      case (Suc m')
      then have "Suc m' < k" using that by simp
      then show ?thesis using k(4) Suc by (simp add: sweeps_Suc_first)
    qed
    have c: "snd (gs_sweep s r q (sweeps s r q (Suc k - 1) u)) < tol" if "Suc k < Suc (Suc K)"
    proof -
      obtain k' where k': "k = Suc k'" using k(1) by (cases k) simp_all
      have "snd (gs_sweep s r q (sweeps s r q (k - 1) ?u')) < tol" using that k(5) by simp
      then show ?thesis by (simp add: k' sweeps_Suc_first)
    qed
    show ?thesis
      using a b c k(1,2) by (intro exI [of _ "Suc k"]) simp
  qed
qed

text \<open>
  C2: a 2D solver whose vectors have \<open>n * n\<close> entries and whose Dirichlet entries hold
  the reference temperature (as after construction, \<open>step\<close> and \<open>reset\<close>), with
  \<open>t < tmax\<close>. Then \<open>step\<close> returns true, adds \<open>dt\<close> to \<open>t\<close> and stores the
  buffer after \<open>k\<close> sweeps, \<open>1 \<le> k \<le> 100\<close>. Each sweep pins the Dirichlet entries
  and gives every other point \<open>(u_old + coef * F + r * (left + right + down + up)) / (1 + 4r)\<close>,
  with the neighbours read from the partially updated buffer and the value at index 1
  for the one missing at \<open>i = 0\<close> or \<open>j = 0\<close>. No sweep before the last changed every
  entry by less than \<open>10\<^sup>-\<^sup>6\<close>, and if fewer than 100 sweeps ran, the last one did.
\<close>

theorem step_2d_gauss_seidel:
  assumes "wf_2d s" and "t_2d s < tmax_2d s"
  shows "let r = alpha (mat_2d s) * dt_2d s / (dx_2d s * dx_2d s);
             coef = dt_2d s / (rho (mat_2d s) * c_heat (mat_2d s));
             B = (\<lambda>m. sweeps s r coef m (u_2d s))
         in \<exists>k. 1 \<le> k \<and> k \<le> 100 \<and>
              step_2d s = (True, s\<lparr>u_2d := B k, t_2d := t_2d s + dt_2d s\<rparr>) \<and>
              (\<forall>m < k. spec_sweep s r coef (B m) (B (Suc m))) \<and>
              (\<forall>m. Suc m < k \<longrightarrow> \<not> spec_max_change (B m) (B (Suc m)) < 1 / 10 ^ 6) \<and>
              (k < 100 \<longrightarrow> spec_max_change (B (k - 1)) (B k) < 1 / 10 ^ 6)"
proof -
  define r where "r = alpha (mat_2d s) * dt_2d s / (dx_2d s * dx_2d s)"
  define coef where "coef = dt_2d s / (rho (mat_2d s) * c_heat (mat_2d s))"
  define B where "B = (\<lambda>m. sweeps s r coef m (u_2d s))"
  have len: "length (u_2d s) = nat (n_2d s) * nat (n_2d s)" using assms(1) by (simp add: wf_2d_def)
  have lenB: "length (B m) = nat (n_2d s) * nat (n_2d s)" for m by (simp add: B_def len)
  have pinB: "\<forall>i < nat (n_2d s). \<forall>j < nat (n_2d s).
      int i = n_2d s - 1 \<or> int j = n_2d s - 1 \<longrightarrow> B m ! idx s i j = u0_kelvin_2d s" for m
    unfolding B_def using sweeps_pinned [OF len, where m = m and r = r and q = coef] assms(1)
    by (simp add: wf_2d_def)
  have spec: "spec_sweep s r coef (B m) (B (Suc m))" for m
    using gs_sweep_spec [OF lenB, where r = r and q = coef] by (simp add: B_def sweeps_Suc)
  have chg: "snd (gs_sweep s r coef (B m)) = spec_max_change (B m) (B (Suc m))" for m
    using gs_sweep_change [OF lenB pinB, where r = r and q = coef] by (simp add: B_def sweeps_Suc)
  from gs_iterate_sweeps [of 99 s r coef "u_2d s"] obtain k where k: "1 \<le> k" "k \<le> 100"
    "gs_iterate s r coef 100 (u_2d s) = B k"
    "\<forall>m. Suc m < k \<longrightarrow> \<not> snd (gs_sweep s r coef (B m)) < tol"
    "k < 100 \<longrightarrow> snd (gs_sweep s r coef (B (k - 1))) < tol"
    unfolding B_def by auto
  have st: "step_2d s = (True, s\<lparr>u_2d := B k, t_2d := t_2d s + dt_2d s\<rparr>)"
    using assms(2) k(3) by (simp add: step_2d_def Let_def max_iter_def r_def coef_def)
  have e1: "\<forall>m. Suc m < k \<longrightarrow> \<not> spec_max_change (B m) (B (Suc m)) < 1 / 10 ^ 6"
    using k(4) by (simp add: chg tol_def)
  have "Suc (k - 1) = k" using k(1) by simp
  then have e2: "k < 100 \<longrightarrow> spec_max_change (B (k - 1)) (B k) < 1 / 10 ^ 6"
    using k(5) chg [of "k - 1"] by (simp add: tol_def)
  have "\<exists>k. 1 \<le> k \<and> k \<le> 100 \<and>
      step_2d s = (True, s\<lparr>u_2d := B k, t_2d := t_2d s + dt_2d s\<rparr>) \<and>
      (\<forall>m < k. spec_sweep s r coef (B m) (B (Suc m))) \<and>
      (\<forall>m. Suc m < k \<longrightarrow> \<not> spec_max_change (B m) (B (Suc m)) < 1 / 10 ^ 6) \<and>
      (k < 100 \<longrightarrow> spec_max_change (B (k - 1)) (B k) < 1 / 10 ^ 6)"
    using k(1,2) st spec e1 e2 by blast
  then show ?thesis unfolding Let_def r_def coef_def B_def .
qed

lemma step_2d_pinned:
  assumes "step_2d s = (True, s')" and len: "length (u_2d s) = nat (n_2d s) * nat (n_2d s)"
    and "i < nat (n_2d s)" and "j < nat (n_2d s)" and "int i = n_2d s - 1 \<or> int j = n_2d s - 1"
  shows "u_2d s' ! idx s i j = u0_kelvin_2d s"
proof -
  define r where "r = alpha (mat_2d s) * dt_2d s / (dx_2d s * dx_2d s)"
  define coef where "coef = dt_2d s / (rho (mat_2d s) * c_heat (mat_2d s))"
  have "u_2d s' = gs_iterate s r coef 100 (u_2d s)"
    using assms(1) by (auto simp: step_2d_def Let_def max_iter_def r_def coef_def split: if_splits)
  moreover from gs_iterate_sweeps [of 99 s r coef "u_2d s"] obtain k where
    "1 \<le> k" "gs_iterate s r coef 100 (u_2d s) = sweeps s r coef k (u_2d s)" by auto
  ultimately show ?thesis
    using sweeps_pinned [OF len _ assms(3,4,5), where m = k and r = r and q = coef] by simp
qed

section \<open>The Dirichlet boundary\<close>


section \<open>The source field\<close>



lemma init_source_point_2d_write:
  "init_source_point_2d s f_val scale j =
   (\<lambda>i Fv. Fv[idx s i j :=
      (if in_source_2d (L_2d s) (real i * dx_2d s) (real j * dx_2d s) then f_val * scale else 0)])"
  by (intro ext) (simp add: init_source_point_2d_def Let_def)



lemma nat_square: "0 \<le> n \<Longrightarrow> nat (n * n) = nat n * nat n"
  by (simp add: nat_mult_distrib)


section \<open>The uniform field without source\<close>

lemma uniform_1d_time [simp]: "uniform_1d (s\<lparr>t_1d := \<tau>\<rparr>) = uniform_1d s"
  by (simp add: uniform_1d_def sys_r_def)








lemma uniform_2d_time [simp]: "uniform_2d (s\<lparr>t_2d := \<tau>\<rparr>) = uniform_2d s"
  by (simp add: uniform_2d_def)





section \<open>The states of a 2D solver are well formed\<close>

lemma fold_grid_length:
  "length (fold (\<lambda>j. fold (\<lambda>i Fv. Fv[g i j := v i j]) is) js xs) = length xs"
proof (induction js arbitrary: xs)
  case Nil
  then show ?case by simp
next
  case (Cons j js)
  have "length (fold (\<lambda>i Fv. Fv[g i j := v i j]) is xs) = length xs" for xs :: "'a list"
    by (induction "is" arbitrary: xs) simp_all
  then show ?case by (simp add: Cons.IH)
qed

lemma init_source_2d_length: "length (F_2d (init_source_2d f s)) = length (F_2d s)"
  by (simp add: init_source_2d_def init_source_point_2d_write Let_def fold_grid_length)

lemma new_2d_wf:
  assumes "0 \<le> n"
  shows "wf_2d (HeatEquationSolver2D_new m L tmax u0 f n)"
proof -
  let ?s = "HeatEquationSolver2D_new m L tmax u0 f n"
  note f = new_2d_fields [of m L tmax u0 f n]
  have "length (F_2d ?s) = nat n * nat n"
    using assms by (simp add: HeatEquationSolver2D_new_def init_source_2d_length nat_square)
  moreover have "u_2d ?s ! idx ?s i j = u0_kelvin_2d ?s" if "i < nat n" "j < nat n" for i j
    using idx_less [OF that] assms by (simp add: f idx_def nat_square)
  ultimately show ?thesis using assms by (simp add: wf_2d_def f nat_square)
qed

lemma step_2d_wf:
  assumes "wf_2d s"
  shows "wf_2d (snd (step_2d s))"
proof (cases "tmax_2d s \<le> t_2d s")
  case True
  then show ?thesis using assms by (simp add: step_2d_def)
next
  case False
  let ?s' = "snd (step_2d s)"
  have st: "step_2d s = (True, ?s')" using False by (simp add: step_2d_def Let_def)
  have same: "n_2d ?s' = n_2d s" "F_2d ?s' = F_2d s" "u0_kelvin_2d ?s' = u0_kelvin_2d s"
    by (subst step_2d_frame(1), simp)+
  have len: "length (u_2d s) = nat (n_2d s) * nat (n_2d s)" using assms by (simp add: wf_2d_def)
  have "u_2d ?s' ! idx ?s' i j = u0_kelvin_2d ?s'"
    if "i < nat (n_2d s)" "j < nat (n_2d s)" "int i = n_2d s - 1 \<or> int j = n_2d s - 1" for i j
    using step_2d_pinned [OF st len that] by (simp add: same idx_def)
  then show ?thesis
    using assms by (simp add: wf_2d_def same step_2d_frame(2))
qed

lemma reset_2d_wf:
  assumes "wf_2d s"
  shows "wf_2d (reset_2d s)"
proof -
  have len: "length (u_2d s) = nat (n_2d s) * nat (n_2d s)" using assms by (simp add: wf_2d_def)
  have "u_2d (reset_2d s) ! idx (reset_2d s) i j = u0_kelvin_2d s"
    if "i < nat (n_2d s)" "j < nat (n_2d s)" for i j
    using idx_less [OF that] by (simp add: reset_2d_def idx_def len)
  then show ?thesis using assms by (simp add: wf_2d_def reset_2d_def)
qed

section \<open>Evaluation at the example states\<close>

lemma upt_small: "[0..<2] = [0, 1]"
  by (simp add: upt_rec)

lemma gs_iterate_numeral:
  "gs_iterate s r q (numeral k) u =
     (case gs_sweep s r q u of
        (u', md) \<Rightarrow> if md < tol then u' else gs_iterate s r q (pred_numeral k) u')"
  by (simp add: numeral_eq_Suc)

lemma w1_new: "HeatEquationSolver1D_new COPPER 1 1 13 80 3 = Inr w1"
  by (simp add: HeatEquationSolver1D_new_def init_source_1d_def init_source_point_1d_def
      Let_def w1_def KELVIN_OFFSET_def numeral_3_eq_3 upt_rec)

lemma w1_step: "step_1d w1 = Inr (True, w1_next)"
  by (simp add: step_1d_def solve_tridiagonal_def forward_elim_def back_subst_def Let_def
      w1_def w1_next_def alpha_def COPPER_def numeral_3_eq_3 upt_rec)

lemma w2_step: "step_2d w2 = (True, w2_next)"
  by (simp add: step_2d_def gs_iterate_numeral gs_sweep_def gs_point_def idx_def max_iter_def
      tol_def Let_def w2_def w2_next_def alpha_def IRON_def upt_small)

lemma w2_wf: "wf_2d w2"
  by (simp add: wf_2d_def w2_def idx_def less_Suc_eq numeral_2_eq_2)

section \<open>The tridiagonal example\<close>

lemma thomas_3:
  "solve_tridiagonal [a0, - 1, - 1] [2, 2, 2] [- 1, - 1, c2] [1, 1, 1] [x0, x1, x2]
   = Inr [3 / 2, 2, 3 / 2]"
  by (simp add: solve_tridiagonal_def forward_elim_def back_subst_def Let_def numeral_3_eq_3 upt_rec)

text \<open>
  C5, as the code has it: for the system with sub-diagonal \<open>[_, -1, -1]\<close>, diagonal
  \<open>[2, 2, 2]\<close>, super-diagonal \<open>[-1, -1, _]\<close> and right-hand side \<open>[1, 1, 1]\<close>,
  \<open>solve_tridiagonal\<close> returns \<open>[1.5, 2, 1.5]\<close>, which is the solution of the system,
  whatever the two unused entries and the initial content of the result vector are; every
  entry is more than \<open>0.4\<close> away from 1.
\<close>

theorem thomas_example:
  "solve_tridiagonal [a0, - 1, - 1] [2, 2, 2] [- 1, - 1, c2] [1, 1, 1] [x0, x1, x2]
     = Inr [3 / 2, 2, 3 / 2] \<and>
   2 * (3 / 2) - 1 * 2 = (1::real) \<and>
   - 1 * (3 / 2) + 2 * 2 - 1 * (3 / 2) = (1::real) \<and>
   - 1 * 2 + 2 * (3 / 2) = (1::real) \<and>
   \<bar>3 / 2 - 1\<bar> > (0.4::real) \<and> \<bar>2 - 1\<bar> > (0.4::real)"
  by (simp add: thomas_3)

theorem thomas_example_counterexample:
  "solve_tridiagonal [0, - 1, - 1] [2, 2, 2] [- 1, - 1, 0] [1, 1, 1] [0, 0, 0]
     = Inr [3 / 2, 2, 3 / 2] \<and>
   \<not> \<bar>[3 / 2, 2, 3 / 2] ! 0 - (1::real)\<bar> \<le> 1 / 10 ^ 9"
  by (simp add: thomas_3)

section \<open>Construction\<close>




section \<open>The theorems at the example states\<close>

theorem get_temperature_agrees_witness:
  "int 0 < n_2d w2 \<and> int 1 < n_2d w2 \<and>
   (\<exists>g. get_temperature_2d w2 = Inr g \<and> get_temperature w2 0 1 = g ! 1 ! 0 \<and>
        get_temperature w2 0 1 = u_2d w2 ! (1 * nat (n_2d w2) + 0))"
proof -
  have h: "int 0 < n_2d w2" "int 1 < n_2d w2" by (simp_all add: w2_def)
  from get_temperature_agrees [OF h] show ?thesis using h by simp
qed

theorem reset_restores_construction_witness:
  "HeatEquationSolver1D_new COPPER 1 1 13 80 3 = Inr w1 \<and> steps_1d 1 w1 = Inr w1_next \<and>
   u_1d w1_next \<noteq> u_1d w1 \<and> reset_1d w1_next = w1 \<and>
   reset_2d (steps_2d 1 (HeatEquationSolver2D_new COPPER 1 1 13 80 3))
     = HeatEquationSolver2D_new COPPER 1 1 13 80 3"
proof -
  have h: "HeatEquationSolver1D_new COPPER 1 1 13 80 3 = Inr w1 \<and> steps_1d 1 w1 = Inr w1_next"
    by (simp add: w1_new w1_step)
  have d: "u_1d w1_next \<noteq> u_1d w1" by (simp add: w1_def w1_next_def)
  from reset_restores_construction [of COPPER 1 1 13 80 3 w1 1 w1_next
      "HeatEquationSolver2D_new COPPER 1 1 13 80 3"
      "steps_2d 1 (HeatEquationSolver2D_new COPPER 1 1 13 80 3)"]
  show ?thesis using h d by simp
qed

theorem step_2d_gauss_seidel_witness:
  "wf_2d w2 \<and> t_2d w2 < tmax_2d w2 \<and> step_2d w2 = (True, w2_next) \<and>
   (\<exists>k r coef. 1 \<le> k \<and> k \<le> 100 \<and>
      step_2d w2 = (True, w2\<lparr>u_2d := sweeps w2 r coef k (u_2d w2), t_2d := t_2d w2 + dt_2d w2\<rparr>) \<and>
      (\<forall>m < k. spec_sweep w2 r coef (sweeps w2 r coef m (u_2d w2))
                  (sweeps w2 r coef (Suc m) (u_2d w2))))"
proof -
  have h: "t_2d w2 < tmax_2d w2" by (simp add: w2_def)
  from step_2d_gauss_seidel [OF w2_wf h] show ?thesis
    using h w2_wf w2_step unfolding Let_def by blast
qed




section \<open>The number of steps\<close>

subsection \<open>Exact arithmetic\<close>

text \<open>
  In exact arithmetic the time after \<open>k \<le> 1000\<close> calls of \<open>step\<close> on a constructed
  solver is \<open>k * tmax / 1000\<close>: the first 1000 calls return true, and the next one returns
  false with \<open>t = tmax\<close>.
\<close>

lemma steps_2d_time:
  assumes "dt_2d s = tmax_2d s / 1000" and "0 < tmax_2d s"
    and "t_2d s = real j * dt_2d s" and "j + k \<le> 1000"
  shows "t_2d (steps_2d k s) = real (j + k) * dt_2d s \<and>
         dt_2d (steps_2d k s) = dt_2d s \<and> tmax_2d (steps_2d k s) = tmax_2d s"
  using assms
proof (induction k arbitrary: s j)
  case 0
  then show ?case by simp
next
  case (Suc k)
  let ?s1 = "snd (step_2d s)"
  have "real j * (tmax_2d s / 1000) < tmax_2d s"
    using Suc.prems(2,4) by (simp add: field_simps)
  moreover have "t_2d s = real j * (tmax_2d s / 1000)"
    using Suc.prems(1,3) by simp
  ultimately have "\<not> tmax_2d s \<le> t_2d s" by simp
  then have ok: "fst (step_2d s)"
    by (simp add: step_2d_frame(3))
  have fr: "dt_2d ?s1 = dt_2d s" "tmax_2d ?s1 = tmax_2d s"
    by (subst step_2d_frame(1), simp)+
  have t1: "t_2d ?s1 = real (Suc j) * dt_2d ?s1"
    using ok Suc.prems(3) by (simp add: step_2d_frame(4) fr algebra_simps)
  have p1: "dt_2d ?s1 = tmax_2d ?s1 / 1000" and p2: "0 < tmax_2d ?s1"
    using Suc.prems(1,2) by (simp_all only: fr)
  have p4: "Suc j + k \<le> 1000" using Suc.prems(4) by simp
  have e: "Suc j + k = j + Suc k" by simp
  from Suc.IH [OF p1 p2 t1 p4] show ?case
    by (simp only: steps_2d.simps fr e)
qed

lemma exact_step_count_2d:
  assumes "0 < tmax" and "s = HeatEquationSolver2D_new m L tmax u0 f n"
  shows "k < 1000 \<Longrightarrow> fst (step_2d (steps_2d k s))"
    and "\<not> fst (step_2d (steps_2d 1000 s))" and "t_2d (steps_2d 1000 s) = tmax"
proof -
  have f: "dt_2d s = tmax_2d s / 1000" "0 < tmax_2d s" "t_2d s = real 0 * dt_2d s" "tmax_2d s = tmax"
    using assms by (simp_all add: new_2d_fields)
  have t: "t_2d (steps_2d k s) = real k * (tmax / 1000) \<and> tmax_2d (steps_2d k s) = tmax"
    if "k \<le> 1000" for k
    using steps_2d_time [OF f(1,2,3), of k] that f(1,4) by simp
  show "fst (step_2d (steps_2d k s))" if "k < 1000"
  proof -
    have "real k * (tmax / 1000) < tmax" using that assms(1) by (simp add: field_simps)
    then show ?thesis using t [of k] that by (simp add: step_2d_frame(3))
  qed
  show "\<not> fst (step_2d (steps_2d 1000 s))" using t [of 1000] by (simp add: step_2d_frame(3))
  show "t_2d (steps_2d 1000 s) = tmax" using t [of 1000] by simp
qed

lemma steps_1d_time:
  assumes "dt_1d s = tmax_1d s / 1000" and "0 < tmax_1d s"
    and "t_1d s = real j * dt_1d s" and "j + k \<le> 1000" and "1 \<le> n_1d s"
  shows "\<exists>s'. steps_1d k s = Inr s' \<and> t_1d s' = real (j + k) * dt_1d s \<and>
              dt_1d s' = dt_1d s \<and> tmax_1d s' = tmax_1d s \<and> n_1d s' = n_1d s"
  using assms
proof (induction k arbitrary: s j)
  case 0
  then show ?case by simp
next
  case (Suc k)
  from step_1d_total [OF Suc.prems(5)] obtain ok s1 where st: "step_1d s = Inr (ok, s1)"
    by blast
  note fr = step_1d_frame [OF st]
  have "real j * (tmax_1d s / 1000) < tmax_1d s"
    using Suc.prems(2,4) by (simp add: field_simps)
  moreover have "t_1d s = real j * (tmax_1d s / 1000)"
    using Suc.prems(1,3) by simp
  ultimately have ok: ok using fr(2) by simp
  have same: "dt_1d s1 = dt_1d s" "tmax_1d s1 = tmax_1d s" "n_1d s1 = n_1d s"
    by (subst fr(1), simp)+
  have t1: "t_1d s1 = real (Suc j) * dt_1d s1"
    using ok fr(3) Suc.prems(3) by (simp add: same algebra_simps)
  have p1: "dt_1d s1 = tmax_1d s1 / 1000" and p2: "0 < tmax_1d s1" and p5: "1 \<le> n_1d s1"
    using Suc.prems(1,2,5) by (simp_all only: same)
  have p4: "Suc j + k \<le> 1000" using Suc.prems(4) by simp
  have e: "Suc j + k = j + Suc k" by simp
  from Suc.IH [OF p1 p2 t1 p4 p5] show ?case
    by (simp only: steps_1d.simps st sum.case prod.case same e)
qed

lemma exact_step_count_1d:
  assumes "0 < tmax" and "1 \<le> n" and new: "HeatEquationSolver1D_new m L tmax u0 f n = Inr s"
  shows "k < 1000 \<Longrightarrow> \<exists>s' s''. steps_1d k s = Inr s' \<and> step_1d s' = Inr (True, s'')"
    and "\<exists>s'. steps_1d 1000 s = Inr s' \<and> step_1d s' = Inr (False, s') \<and> t_1d s' = tmax"
proof -
  note f = new_1d_fields [OF new]
  have p: "dt_1d s = tmax_1d s / 1000" "0 < tmax_1d s" "t_1d s = real 0 * dt_1d s" "1 \<le> n_1d s"
    using assms(1,2) f by simp_all
  have t: "\<exists>s'. steps_1d k s = Inr s' \<and> t_1d s' = real k * (tmax / 1000) \<and>
      tmax_1d s' = tmax \<and> n_1d s' = n" if "k \<le> 1000" for k
  proof -
    from steps_1d_time [OF p(1,2,3) _ p(4), of k] that obtain s' where
      s': "steps_1d k s = Inr s'" "t_1d s' = real (0 + k) * dt_1d s"
      "tmax_1d s' = tmax_1d s" "n_1d s' = n_1d s" by auto
    have "t_1d s' = real k * (tmax / 1000)" using s'(2) f(6) by simp
    then show ?thesis using s'(1,3,4) f(4,9) by blast
  qed
  show "\<exists>s' s''. steps_1d k s = Inr s' \<and> step_1d s' = Inr (True, s'')" if "k < 1000"
  proof -
    from t [of k] that obtain s' where s': "steps_1d k s = Inr s'"
      "t_1d s' = real k * (tmax / 1000)" "tmax_1d s' = tmax" "n_1d s' = n" by auto
    have "real k * (tmax / 1000) < tmax" using that assms(1) by (simp add: field_simps)
    then have lt: "\<not> tmax_1d s' \<le> t_1d s'" using s'(2,3) by simp
    from step_1d_total [of s'] s'(4) assms(2) obtain ok s'' where st: "step_1d s' = Inr (ok, s'')"
      by auto
    from step_1d_frame(2) [OF st] lt have "ok = True" by simp
    then have "step_1d s' = Inr (True, s'')" using st by simp
    then show ?thesis using s'(1) by blast
  qed
  show "\<exists>s'. steps_1d 1000 s = Inr s' \<and> step_1d s' = Inr (False, s') \<and> t_1d s' = tmax"
  proof -
    from t [of 1000] obtain s' where s': "steps_1d 1000 s = Inr s'"
      "t_1d s' = real 1000 * (tmax / 1000)" "tmax_1d s' = tmax" by auto
    then have "t_1d s' = tmax" by simp
    then have "step_1d s' = Inr (False, s')" using s'(3) by (simp add: step_1d_def)
    then show ?thesis using s'(1) \<open>t_1d s' = tmax\<close> by blast
  qed
qed

subsection \<open>Binary64 arithmetic\<close>

text \<open>
  The rounding: \<open>bit_length\<close> counts the binary digits; \<open>round_shift\<close> is within
  half a unit of the exact quotient, even at a tie, and exact when nothing is dropped;
  the mantissa that \<open>b64_round\<close> returns has at most 53 bits (or is \<open>2\<^sup>5\<^sup>3\<close>).
\<close>

lemma bit_length_bounds:
  "0 < n \<Longrightarrow> 2 ^ (bit_length n - 1) \<le> n \<and> n < 2 ^ bit_length n"
proof (induction n rule: bit_length.induct)
  case (1 n)
  show ?case
  proof (cases "n div 2 = 0")
    case True
    then have n: "n = 1" using "1.prems" by presburger
    have "bit_length 0 = 0" by (subst bit_length.simps) simp
    then have "bit_length 1 = Suc 0" by (subst bit_length.simps) simp
    then show ?thesis by (simp add: n)
  next
    case False
    then have pos: "0 < n div 2" using "1.prems" by presburger
    then have len: "bit_length (n div 2) \<noteq> 0" by (subst bit_length.simps) simp
    from "1.IH" pos "1.prems" have
      IH: "2 ^ (bit_length (n div 2) - 1) \<le> n div 2" "n div 2 < 2 ^ bit_length (n div 2)"
      by simp_all
    have bl: "bit_length n = Suc (bit_length (n div 2))"
      using "1.prems" by (subst bit_length.simps) simp
    have "(2::int) ^ bit_length (n div 2) = 2 * 2 ^ (bit_length (n div 2) - 1)"
      using len by (cases "bit_length (n div 2)") simp_all
    then have "2 ^ bit_length (n div 2) \<le> 2 * (n div 2)" using IH(1) by simp
    also have "\<dots> \<le> n" by presburger
    finally have lo: "2 ^ (bit_length n - 1) \<le> n" by (simp add: bl)
    have "n < 2 * (n div 2) + 2" by presburger
    also have "\<dots> \<le> 2 * 2 ^ bit_length (n div 2)" using IH(2) by simp
    finally have "n < 2 ^ bit_length n" by (simp add: bl)
    then show ?thesis using lo by simp
  qed
qed

lemma round_shift_nearest:
  assumes "0 < k"
  shows "\<bar>round_shift M k * 2 ^ k - M\<bar> \<le> 2 ^ (k - 1)"
proof -
  define q r where "q = M div 2 ^ k" and "r = M mod 2 ^ k"
  have M: "M = q * 2 ^ k + r"
    unfolding q_def r_def by (rule div_mult_mod_eq [symmetric])
  have r: "0 \<le> r" "r < 2 ^ k"
    by (simp_all add: r_def)
  have k: "(2::int) ^ k = 2 * 2 ^ (k - 1)" using assms by (cases k) simp_all
  show ?thesis
  proof (cases "r > 2 ^ (k - 1) \<or> (r = 2 ^ (k - 1) \<and> odd q)")
    case True
    then have "round_shift M k = q + 1"
      using assms by (simp add: round_shift_def Let_def q_def r_def)
    then have "round_shift M k * 2 ^ k - M = 2 ^ k - r" by (simp add: M algebra_simps)
    then show ?thesis using True r k by auto
  next
    case False
    then have "round_shift M k = q"
      using assms by (simp add: round_shift_def Let_def q_def r_def)
    then have "round_shift M k * 2 ^ k - M = - r" by (simp add: M)
    then show ?thesis using False r by auto
  qed
qed

lemma round_shift_tie_even:
  assumes "0 < k" and "M mod 2 ^ k = 2 ^ (k - 1)"
  shows "even (round_shift M k)"
  using assms by (simp add: round_shift_def Let_def)

lemma round_shift_exact: "round_shift M 0 = M"
  by (simp add: round_shift_def)

lemma round_shift_bounds:
  assumes "0 \<le> M" and "M < 2 ^ (53 + k)"
  shows "0 \<le> round_shift M k \<and> round_shift M k \<le> 2 ^ 53"
proof (cases "k = 0")
  case True
  then show ?thesis using assms by (simp add: round_shift_def)
next
  case False
  have "M div 2 ^ k * 2 ^ k + M mod 2 ^ k = M" by (rule div_mult_mod_eq)
  moreover have "0 \<le> M mod (2::int) ^ k" by simp
  ultimately have le: "M div 2 ^ k * 2 ^ k \<le> M" by linarith
  have "M < 2 ^ 53 * 2 ^ k" using assms(2) by (simp only: power_add)
  with le have "M div 2 ^ k * 2 ^ k < 2 ^ 53 * 2 ^ k" by (rule le_less_trans)
  then have "M div 2 ^ k < 2 ^ 53" by (rule mult_right_less_imp_less) simp
  moreover have "0 \<le> M div 2 ^ k" using assms(1) by (simp add: pos_imp_zdiv_nonneg_iff)
  ultimately show ?thesis using False by (auto simp: round_shift_def Let_def)
qed

lemma b64_round_mantissa:
  assumes "b64_round M e = B64 m e'"
  shows "\<bar>m\<bar> \<le> 2 ^ 53"
proof -
  define k where "k = bit_length \<bar>M\<bar> - 53"
  have m: "m = sgn M * round_shift \<bar>M\<bar> k"
    using assms by (simp add: b64_round_def Let_def k_def)
  have "\<bar>M\<bar> < 2 ^ (53 + k)"
  proof (cases "M = 0")
    case True
    then show ?thesis by simp
  next
    case False
    then have "\<bar>M\<bar> < 2 ^ bit_length \<bar>M\<bar>" using bit_length_bounds [of "\<bar>M\<bar>"] by simp
    also have "\<dots> \<le> 2 ^ (53 + k)" by (rule power_increasing) (simp_all add: k_def)
    finally show ?thesis .
  qed
  from round_shift_bounds [OF _ this] have "0 \<le> round_shift \<bar>M\<bar> k" "round_shift \<bar>M\<bar> k \<le> 2 ^ 53"
    by simp_all
  then show ?thesis unfolding m by (simp add: abs_mult abs_sgn_eq)
qed

text \<open>
  Known binary64 values: \<open>1/10\<close>, \<open>1/10 + 2/10\<close>, \<open>1/3\<close>, \<open>10/1000\<close>, and the two
  ties \<open>2\<^sup>5\<^sup>3 + 1\<close> (rounded down to \<open>2\<^sup>5\<^sup>3\<close>) and \<open>2\<^sup>5\<^sup>3 + 3\<close> (rounded up to
  \<open>2\<^sup>5\<^sup>3 + 4\<close>).
\<close>

lemma b64_known_values:
  "b64_div (B64 1 0) (B64 10 0) = B64 7205759403792794 (- 56)"
  "b64_add (b64_div (B64 1 0) (B64 10 0)) (b64_div (B64 2 0) (B64 10 0)) = B64 5404319552844596 (- 54)"
  "b64_div (B64 1 0) (B64 3 0) = B64 6004799503160661 (- 54)"
  "b64_div (B64 10 0) (B64 1000 0) = B64 5764607523034235 (- 59)"
  "b64_add (B64 9007199254740992 0) (B64 1 0) = B64 4503599627370496 1"
  "b64_add (B64 9007199254740994 0) (B64 1 0) = B64 4503599627370498 1"
  by code_simp+

lemma run64_add:
  "run64 a s = (True, s') \<Longrightarrow> run64 (a + b) s = run64 b s'"
proof (induction a arbitrary: s)
  case 0
  then show ?case by simp
next
  case (Suc a)
  obtain ok s1 where st: "step_time64 s = (ok, s1)" by (cases "step_time64 s")
  show ?case
  proof (cases ok)
    case True
    then show ?thesis using Suc st by simp
  next
    case False
    then show ?thesis using Suc.prems st by simp
  qed
qed

lemma time64_new_10: "time64_new (B64 10 0) = at64 0 0"
  by (simp add: time64_new_def at64_def b64_known_values)

lemma run64_chunk_0: "run64 100 (at64 0 (0)) = (True, at64 4503599627370499 (- 52))"
  by code_simp

lemma run64_chunk_1: "run64 100 (at64 4503599627370499 (- 52)) = (True, at64 4503599627370499 (- 51))"
  by code_simp

lemma run64_chunk_2: "run64 100 (at64 4503599627370499 (- 51)) = (True, at64 6755399441055699 (- 51))"
  by code_simp

lemma run64_chunk_3: "run64 100 (at64 6755399441055699 (- 51)) = (True, at64 9007199254740899 (- 51))"
  by code_simp

lemma run64_chunk_4: "run64 100 (at64 9007199254740899 (- 51)) = (True, at64 5629499534213050 (- 50))"
  by code_simp

lemma run64_chunk_5: "run64 100 (at64 5629499534213050 (- 50)) = (True, at64 6755399441055650 (- 50))"
  by code_simp

lemma run64_chunk_6: "run64 100 (at64 6755399441055650 (- 50)) = (True, at64 7881299347898250 (- 50))"
  by code_simp

lemma run64_chunk_7: "run64 100 (at64 7881299347898250 (- 50)) = (True, at64 9007199254740850 (- 50))"
  by code_simp

lemma run64_chunk_8: "run64 100 (at64 9007199254740850 (- 50)) = (True, at64 5066549580791725 (- 49))"
  by code_simp

lemma run64_chunk_9: "run64 100 (at64 5066549580791725 (- 49)) = (True, at64 5629499534213025 (- 49))"
  by code_simp

lemma run64_1000: "run64 1000 (at64 0 0) = (True, at64 5629499534213025 (- 49))"
proof -
  note c = run64_chunk_0 run64_chunk_1 run64_chunk_2 run64_chunk_3 run64_chunk_4
    run64_chunk_5 run64_chunk_6 run64_chunk_7 run64_chunk_8 run64_chunk_9
  have "run64 (100 + (100 + (100 + (100 + (100 + (100 + (100 + (100 + (100 + 100)))))))))
      (at64 0 0) = (True, at64 5629499534213025 (- 49))"
    by (simp only: c run64_add [OF c(1)] run64_add [OF c(2)] run64_add [OF c(3)]
        run64_add [OF c(4)] run64_add [OF c(5)] run64_add [OF c(6)] run64_add [OF c(7)]
        run64_add [OF c(8)] run64_add [OF c(9)])
  then show ?thesis by simp
qed

lemma step_time64_1001:
  "step_time64 (at64 5629499534213025 (- 49)) = (True, at64 5635129033747238 (- 49))"
  unfolding at64_def by code_simp

lemma step_time64_1002:
  "step_time64 (at64 5635129033747238 (- 49)) = (False, at64 5635129033747238 (- 49))"
  unfolding at64_def by code_simp

text \<open>
  C1 fails on the code: with \<open>tmax = 10\<close> (so \<open>dt\<close> is the binary64 number next to
  \<open>0.01\<close>) the first 1000 calls of \<open>step\<close> return true and leave
  \<open>t = 5629499534213025 * 2\<^sup>-\<^sup>4\<^sup>9 < 10\<close>, so the call 1001 returns true as well; only the
  call 1002 returns false, with \<open>t = 5635129033747238 * 2\<^sup>-\<^sup>4\<^sup>9 > 10.009\<close>.
\<close>

theorem step_count_binary64:
  "run64 1000 (time64_new (B64 10 0)) = (True, at64 5629499534213025 (- 49)) \<and>
   run64 1001 (time64_new (B64 10 0)) = (True, at64 5635129033747238 (- 49)) \<and>
   step_time64 (at64 5635129033747238 (- 49)) = (False, at64 5635129033747238 (- 49)) \<and>
   b64_val (t64 (at64 5629499534213025 (- 49))) < 10 \<and>
   b64_val (t64 (at64 5635129033747238 (- 49))) > 10 + 9 / 1000"
proof -
  have "run64 (1000 + 1) (at64 0 0) = run64 1 (at64 5629499534213025 (- 49))"
    by (rule run64_add [OF run64_1000])
  then have "run64 1001 (at64 0 0) = (True, at64 5635129033747238 (- 49))"
    by (simp add: step_time64_1001)
  moreover have "b64_val (t64 (at64 5629499534213025 (- 49))) < 10"
    "b64_val (t64 (at64 5635129033747238 (- 49))) > 10 + 9 / 1000"
    by (simp_all add: at64_def b64_val_def)
  ultimately show ?thesis
    by (simp add: time64_new_10 run64_1000 step_time64_1002)
qed

end
